theory Spec2Isabelle
  imports Main "HOL-Library.Multiset" "HOL-Library.Product_Lexorder"
begin

section \<open>Python strings\<close>

text \<open>
  A Python \<open>str\<close> is a \<open>string\<close> here: a list of characters, each standing for a code
  point below 256. The character classes below are those of Python for that range.
\<close>

text \<open>\<open>str.isspace\<close> for one character: the white space that \<open>str.strip()\<close> removes.\<close>

definition isspace :: "char \<Rightarrow> bool" where
  "isspace c =
     (let n = (of_char c :: nat) in
      (9 \<le> n \<and> n \<le> 13) \<or> (28 \<le> n \<and> n \<le> 32) \<or> n = 133 \<or> n = 160)"

text \<open>\<open>s.strip()\<close>: leading and trailing white space removed.\<close>

definition strip :: "string \<Rightarrow> string" where
  "strip s = rev (dropWhile isspace (rev (dropWhile isspace s)))"

text \<open>\<open>sep.join(pieces)\<close>\<close>

fun join :: "string \<Rightarrow> string list \<Rightarrow> string" where
  "join sep [] = []"
| "join sep [x] = x"
| "join sep (x # y # ys) = x @ sep @ join sep (y # ys)"

text \<open>
  \<open>s.lower()\<close>: the upper-case letters below 256 are \<open>A\<close> to \<open>Z\<close> and the code points 192
  to 222 except the multiplication sign 215; each has its lower-case form 32 places up.
\<close>

definition lower_char :: "char \<Rightarrow> char" where
  "lower_char c =
     (let n = (of_char c :: nat) in
      if (65 \<le> n \<and> n \<le> 90) \<or> (192 \<le> n \<and> n \<le> 222 \<and> n \<noteq> 215)
      then char_of (n + 32) else c)"

definition lower :: "string \<Rightarrow> string" where
  "lower s = map lower_char s"

text \<open>\<open>s.startswith(p)\<close>\<close>

definition startswith :: "string \<Rightarrow> string \<Rightarrow> bool" where
  "startswith s p = (take (length p) s = p)"

text \<open>
  \<open>int(s)\<close> in base 10: white space around the number is dropped, a sign may come first,
  and the digits may be separated by single underscores. \<open>None\<close> is \<open>ValueError\<close>.
  The white space of \<open>int\<close> is that of \<open>str.isspace\<close> without the four separators 28
  to 31. A number written with more digits than \<open>sys.get_int_max_str_digits()\<close>, 4300
  unless the interpreter was started with another limit, is a \<open>ValueError\<close> as well;
  leading zeros count as digits, underscores do not.
\<close>

definition isdigit :: "char \<Rightarrow> bool" where
  "isdigit c = (48 \<le> (of_char c :: nat) \<and> (of_char c :: nat) \<le> 57)"

definition digit_value :: "char \<Rightarrow> nat" where
  "digit_value c = of_char c - 48"

fun digits_from :: "nat \<Rightarrow> string \<Rightarrow> nat option" where
  "digits_from acc [] = Some acc"
| "digits_from acc [c] = (if isdigit c then Some (10 * acc + digit_value c) else None)"
| "digits_from acc (c # d # ds) =
     (if isdigit c then digits_from (10 * acc + digit_value c) (d # ds)
      else if c = CHR ''_'' \<and> isdigit d then digits_from (10 * acc + digit_value d) ds
      else None)"

definition int_max_str_digits :: nat where
  "int_max_str_digits = 4300"

definition digits :: "string \<Rightarrow> nat option" where
  "digits s =
     (if int_max_str_digits < length (filter isdigit s) then None
      else (case s of [] \<Rightarrow> None
        | c # cs \<Rightarrow> if isdigit c then digits_from (digit_value c) cs else None))"

definition int_space :: "char \<Rightarrow> bool" where
  "int_space c =
     (let n = (of_char c :: nat) in (9 \<le> n \<and> n \<le> 13) \<or> n = 32 \<or> n = 133 \<or> n = 160)"

definition py_int :: "string \<Rightarrow> int option" where
  "py_int s =
     (case rev (dropWhile int_space (rev (dropWhile int_space s))) of
        [] \<Rightarrow> None
      | c # cs \<Rightarrow>
          if c = CHR ''-'' then map_option (\<lambda>n. - int n) (digits cs)
          else if c = CHR ''+'' then map_option int (digits cs)
          else map_option int (digits (c # cs)))"

section \<open>The regular expression \<open>TOKEN_RE\<close>\<close>

text \<open>The character class \<open>[A-Za-z]\<close>.\<close>

definition is_ascii_alpha :: "char \<Rightarrow> bool" where
  "is_ascii_alpha c =
     (let n = (of_char c :: nat) in (65 \<le> n \<and> n \<le> 90) \<or> (97 \<le> n \<and> n \<le> 122))"

text \<open>
  \<open>TOKEN_RE.finditer(text)\<close> for \<open>[A-Za-z]{2,}\<close>, as the matched strings. At a position the
  greedy repetition takes every letter that follows; with two letters or more that is the
  match, and the search goes on behind it. With fewer it gives up at this position, since
  giving letters back cannot help, and the search goes on one character further.
\<close>

function finditer :: "string \<Rightarrow> string list" where
  "finditer [] = []"
| "finditer (c # cs) =
     (let run = takeWhile is_ascii_alpha (c # cs) in
      if 2 \<le> length run then run # finditer (dropWhile is_ascii_alpha (c # cs))
      else finditer cs)"
  by pat_completeness auto
termination
  by (relation "measure length")
    (auto split: if_splits simp: less_Suc_eq_le length_dropWhile_le)

section \<open>\<open>collections.Counter\<close> and \<open>most_common\<close>\<close>

text \<open>
  A \<open>Counter\<close> is a \<open>dict\<close>: its items are kept in the order in which their keys were first
  inserted, and storing under an existing key keeps the position of that key. The
  dictionary is an association list here, since the order of the items decides the ranking
  of keys with equal counts.
\<close>

type_synonym 'k counter = "('k \<times> nat) list"

text \<open>\<open>d.get(k, default)\<close>\<close>

fun dict_get :: "('k \<times> 'v) list \<Rightarrow> 'k \<Rightarrow> 'v \<Rightarrow> 'v" where
  "dict_get [] k dflt = dflt"
| "dict_get ((k', v) # d) k dflt = (if k' = k then v else dict_get d k dflt)"

text \<open>\<open>d[k] = v\<close>: an existing key keeps its place, a new key goes to the end.\<close>

fun dict_set :: "('k \<times> 'v) list \<Rightarrow> 'k \<Rightarrow> 'v \<Rightarrow> ('k \<times> 'v) list" where
  "dict_set [] k v = [(k, v)]"
| "dict_set ((k', v') # d) k v = (if k' = k then (k, v) # d else (k', v') # dict_set d k v)"

text \<open>
  \<open>Counter(iterable)\<close> runs \<open>_count_elements\<close>:
  \<^verbatim>\<open>for elem in iterable: mapping[elem] = mapping.get(elem, 0) + 1\<close>
\<close>

definition count_elements :: "'k counter \<Rightarrow> 'k list \<Rightarrow> 'k counter" where
  "count_elements mapping iterable =
     foldl (\<lambda>d elem. dict_set d elem (dict_get d elem 0 + 1)) mapping iterable"

definition Counter :: "'k list \<Rightarrow> 'k counter" where
  "Counter iterable = count_elements [] iterable"

text \<open>
  \<open>sorted(items, key=itemgetter(1), reverse=True)\<close>: Python's sort is stable, also with
  \<open>reverse=True\<close>, so items with equal counts keep their order. That is the stable sort
  on the negated count.
\<close>

definition sorted_reverse :: "'k counter \<Rightarrow> 'k counter" where
  "sorted_reverse items = sort_key (\<lambda>kv. - int (snd kv)) items"

text \<open>
  \<open>max(it, key=itemgetter(1))\<close> keeps the first of the maximal items: the running best is
  replaced only by a strictly larger one.
\<close>

fun max_first :: "'k \<times> nat \<Rightarrow> 'k counter \<Rightarrow> 'k \<times> nat" where
  "max_first best [] = best"
| "max_first best (x # xs) = max_first (if snd best < snd x then x else best) xs"

text \<open>A slice \<open>xs[:n]\<close>; a negative \<open>n\<close> counts from the end.\<close>

definition slice_to :: "int \<Rightarrow> 'a list \<Rightarrow> 'a list" where
  "slice_to n xs = (if 0 \<le> n then take (nat n) xs else take (length xs - nat (- n)) xs)"

text \<open>
  The last branch of \<open>heapq.nlargest\<close> decorates every item as a tuple
  \<open>(key(elem), order, elem)\<close> and keeps the tuples in a heap. Python compares tuples
  from the left: by the count, then by the order. No two tuples of the heap have the same
  order, so the items themselves are never compared.
\<close>

type_synonym 'k decorated = "nat \<times> int \<times> ('k \<times> nat)"

definition dec_key :: "'k decorated \<Rightarrow> nat \<times> int" where
  "dec_key d = (fst d, fst (snd d))"

text \<open>
  A heap is a list whose least element is at index 0. What the code below reads of it is
  \<open>result[0]\<close>, and what it does to it is \<open>heapreplace\<close>, which takes the least element
  out and puts the new one in; at the end the list is sorted. None of this depends on where
  the other elements are, so the heap is the list of its elements in any order.
\<close>

definition heap_min :: "'k decorated list \<Rightarrow> 'k decorated" where
  "heap_min result = arg_min_list dec_key result"

definition heapreplace :: "'k decorated list \<Rightarrow> 'k decorated \<Rightarrow> 'k decorated list" where
  "heapreplace result item = remove1 (heap_min result) result @ [item]"

text \<open>\<open>result.sort(reverse=True)\<close>: the stable sort, descending by count and then by order.\<close>

definition sort_reverse :: "'k decorated list \<Rightarrow> 'k decorated list" where
  "sort_reverse result = sort_key (\<lambda>d. (- int (fst d), - fst (snd d))) result"

text \<open>
  \<^verbatim>\<open>result = [(key(elem), i, elem) for i, elem in zip(range(0, -n, -1), it)]\<close>
  The first \<open>n\<close> items get the orders \<open>0, -1, ..., -(n - 1)\<close>; for \<open>n \<le> 0\<close> the range is
  empty and so is the result.
\<close>

definition decorate :: "int \<Rightarrow> 'k counter \<Rightarrow> 'k decorated list" where
  "decorate n it = map (\<lambda>(i, elem). (snd elem, - int i, elem)) (zip [0 ..< nat n] it)"

text \<open>
  The loop over the items that are left, with \<open>top = result[0][0]\<close>:
  \<^verbatim>\<open>for elem in it:
    k = key(elem)
    if top < k:
        heapreplace(result, (k, order, elem))
        top, _order, _elem = result[0]
        order -= 1\<close>
\<close>

fun nlargest_scan :: "'k decorated list \<Rightarrow> int \<Rightarrow> 'k counter \<Rightarrow> 'k decorated list" where
  "nlargest_scan result order [] = result"
| "nlargest_scan result order (elem # it) =
     (if fst (heap_min result) < snd elem
      then nlargest_scan (heapreplace result (snd elem, order, elem)) (order - 1) it
      else nlargest_scan result order it)"

text \<open>
  \<open>heapq.nlargest(n, items, key=itemgetter(1))\<close>, branch by branch:
  \<^item> \<open>n == 1\<close> returns the maximum, or nothing for no items;
  \<^item> \<open>n >= len(items)\<close> returns \<open>sorted(items, key=key, reverse=True)[:n]\<close>;
  \<^item> otherwise the first \<open>n\<close> items are decorated, and an empty result is returned as it
    is; else the heap is scanned over the items that are left, starting with the order
    \<open>-n\<close>, then sorted, and the items of its tuples are returned:
  \<^verbatim>\<open>result.sort(reverse=True)
return [elem for (k, order, elem) in result]\<close>
\<close>

definition nlargest :: "int \<Rightarrow> 'k counter \<Rightarrow> 'k counter" where
  "nlargest n items =
     (if n = 1 then (case items of [] \<Rightarrow> [] | x # xs \<Rightarrow> [max_first x xs])
      else if int (length items) \<le> n then slice_to n (sorted_reverse items)
      else (let result = decorate n items in
            if result = [] then []
            else map (\<lambda>d. snd (snd d))
                   (sort_reverse (nlargest_scan result (- n) (drop (nat n) items)))))"

text \<open>
  \<open>Counter.most_common(n=None)\<close>:
  \<^verbatim>\<open>if n is None: return sorted(self.items(), key=itemgetter(1), reverse=True)
return heapq.nlargest(n, self.items(), key=itemgetter(1))\<close>
\<close>

definition most_common :: "int option \<Rightarrow> 'k counter \<Rightarrow> 'k counter" where
  "most_common n items =
     (case n of None \<Rightarrow> sorted_reverse items | Some m \<Rightarrow> nlargest m items)"

section \<open>The document tree of \<open>bs4\<close>\<close>

text \<open>
  The classes of the strings of a parsed document. All of them are subclasses of
  \<open>NavigableString\<close>, itself a subclass of \<open>str\<close>.
\<close>

datatype string_class =
  NavigableString | CData | Comment | ProcessingInstruction | XMLProcessingInstruction
  | Declaration | Doctype | Stylesheet | Script | TemplateString
  | RubyTextString | RubyParenthesisString

text \<open>
  A node is a \<open>Tag\<close> with its name and its children, or a string of one of these classes.
  A tag is an object that the program holds references to and removes from the tree, so it
  carries its identity \<open>ident\<close>: two tags of one tree are the same object exactly when they
  have the same identity.
\<close>

datatype node =
  is_Tag: Tag (ident: nat) (tag_name: string) (contents: "node list")
  | Str string_class string

text \<open>
  The \<open>BeautifulSoup\<close> object is the root of the tree. It is given by its \<open>contents\<close>, the
  top-level nodes: the searches and iterations below look at the descendants of the root,
  never at the root itself.
\<close>

type_synonym soup = "node list"

text \<open>A node followed by its descendants, in document order.\<close>

fun subtree :: "node \<Rightarrow> node list" where
  "subtree (Tag i nm kids) = Tag i nm kids # concat (map subtree kids)"
| "subtree (Str c s) = [Str c s]"

text \<open>\<open>soup.descendants\<close>\<close>

definition descendants :: "soup \<Rightarrow> node list" where
  "descendants soup = concat (map subtree soup)"

text \<open>
  \<open>soup(names)\<close>, which is \<open>soup.find_all(names)\<close> for a list of names: the tags among the
  descendants whose name is in the list.
\<close>

definition find_all_names :: "string list \<Rightarrow> soup \<Rightarrow> node list" where
  "find_all_names names soup =
     filter (\<lambda>n. is_Tag n \<and> tag_name n \<in> set names) (descendants soup)"

text \<open>\<open>soup.find_all(True)\<close>: every tag among the descendants.\<close>

definition find_all_True :: "soup \<Rightarrow> node list" where
  "find_all_True soup = filter is_Tag (descendants soup)"

text \<open>\<open>n is tag\<close>, for a tag \<open>tag\<close>.\<close>

definition is_element :: "node \<Rightarrow> node \<Rightarrow> bool" where
  "is_element tag n = (is_Tag tag \<and> is_Tag n \<and> ident n = ident tag)"

text \<open>
  \<open>tag.decompose()\<close> takes the tag out of the \<open>contents\<close> of its parent and destroys it with
  everything below it. On the tree that holds the tag this removes the subtree of the tag;
  on a tree that holds it no more (it went with an ancestor that was decomposed before)
  nothing changes.
\<close>

fun without_element :: "node \<Rightarrow> node \<Rightarrow> node" where
  "without_element tag (Tag j nm kids) =
     Tag j nm (map (without_element tag) (filter (\<lambda>k. \<not> is_element tag k) kids))"
| "without_element tag (Str c s) = Str c s"

definition decompose :: "node \<Rightarrow> soup \<Rightarrow> soup" where
  "decompose tag soup = map (without_element tag) (filter (\<lambda>k. \<not> is_element tag k) soup)"

text \<open>
  What a loop over \<open>soup.stripped_strings\<close> is handed: a built-in \<open>str\<close>, or a node of the
  tree. \<open>isinstance\<close> tells them apart.
\<close>

datatype element = Py_str string | Page_element node

fun isinstance_NavigableString :: "element \<Rightarrow> bool" where
  "isinstance_NavigableString (Py_str s) = False"
| "isinstance_NavigableString (Page_element (Str c s)) = True"
| "isinstance_NavigableString (Page_element (Tag i nm kids)) = False"

fun isinstance_Tag :: "element \<Rightarrow> bool" where
  "isinstance_Tag (Py_str s) = False"
| "isinstance_Tag (Page_element (Str c s)) = False"
| "isinstance_Tag (Page_element (Tag i nm kids)) = True"

text \<open>The characters of an element that is a string.\<close>

fun str_of :: "element \<Rightarrow> string" where
  "str_of (Py_str s) = s"
| "str_of (Page_element (Str c s)) = s"
| "str_of (Page_element (Tag i nm kids)) = []"

text \<open>
  \<open>soup.stripped_strings\<close> is \<open>soup._all_strings(strip=True)\<close> with the default \<open>types\<close>,
  the pair \<open>(NavigableString, CData)\<close>:
  \<^verbatim>\<open>for descendant in self.descendants:
    if type(descendant) not in types: continue
    if strip:
        descendant = descendant.strip()
        if len(descendant) == 0: continue
    yield descendant\<close>
  The test is on the class itself, not on its subclasses, so a \<open>Comment\<close>, a \<open>Doctype\<close> or
  the \<open>Script\<close> string of a script element is passed over. \<open>strip\<close> is the method of
  \<open>str\<close>, which returns a built-in \<open>str\<close> also when called on an object of a subclass:
  what is yielded is a \<open>str\<close>, not a \<open>NavigableString\<close>.
\<close>

fun all_strings_strip :: "node list \<Rightarrow> element list" where
  "all_strings_strip [] = []"
| "all_strings_strip (Tag i nm kids # ds) = all_strings_strip ds"
| "all_strings_strip (Str c s # ds) =
     (if c \<noteq> NavigableString \<and> c \<noteq> CData then all_strings_strip ds
      else if strip s = [] then all_strings_strip ds
      else Py_str (strip s) # all_strings_strip ds)"

definition stripped_strings :: "soup \<Rightarrow> element list" where
  "stripped_strings soup = all_strings_strip (descendants soup)"

section \<open>The command line: \<open>argparse\<close>\<close>

text \<open>
  The result of a call that may end the process: \<open>sys.exit(code)\<close>, or a value. The third
  case stands for the command lines whose handling by \<open>argparse\<close> is left out below.
\<close>

datatype 'a outcome = SystemExit int | Not_modelled | Returned 'a

record namespace =
  url :: string
  top :: int

text \<open>
  The parser of \<open>parse_args\<close> has the options \<open>-h\<close>/\<open>--help\<close> and \<open>-t\<close>/\<open>--top\<close>, the latter
  with one argument of \<open>type=int\<close> and \<open>default=100\<close>, and the positional \<open>url\<close>.
  \<open>ArgumentParser._parse_optional\<close> sorts every argument string into a positional
  argument or an option:
  \<^item> the empty string, a string that does not start with \<open>-\<close>, and \<open>-\<close> alone are positional;
  \<^item> an option string itself is that option;
  \<^item> a string that starts with \<open>--\<close> is cut at its first \<open>=\<close>; when the part before it is
    the beginning of exactly one long option, it is that option, with the part behind \<open>=\<close>
    as its explicit argument; when it is the beginning of both, the option is ambiguous;
  \<^item> a string that looks like a negative number (\<open>^-\d+$|^-\d*\.\d+$\<close>) is positional, since
    the parser has no option that looks like one; so is a string with a space in it;
  \<^item> any other string is an unknown option.
  Left out: \<open>--\<close>, and the short options with something attached (\<open>-t5\<close>, \<open>-t=5\<close>, \<open>-hx\<close>).
\<close>

datatype arg_kind =
  Positional | Opt_top "string option" | Opt_help "string option"
  | Unknown_option | Ambiguous_option | Other_form

definition before_eq :: "string \<Rightarrow> string" where
  "before_eq s = takeWhile (\<lambda>c. c \<noteq> CHR ''='') s"

definition after_eq :: "string \<Rightarrow> string option" where
  "after_eq s = (case dropWhile (\<lambda>c. c \<noteq> CHR ''='') s of [] \<Rightarrow> None | e # rest \<Rightarrow> Some rest)"

text \<open>\<open>_negative_number_matcher\<close>; \<open>$\<close> also matches before a newline that ends the string.\<close>

definition negative_number :: "string \<Rightarrow> bool" where
  "negative_number s =
     (let t = (if s \<noteq> [] \<and> last s = CHR ''\<newline>'' then butlast s else s) in
      case t of
        [] \<Rightarrow> False
      | c # cs \<Rightarrow> c = CHR ''-'' \<and>
          (let whole = takeWhile isdigit cs; rest = dropWhile isdigit cs in
           (whole \<noteq> [] \<and> rest = []) \<or>
           (case rest of [] \<Rightarrow> False
            | d # frac \<Rightarrow> d = CHR ''.'' \<and> frac \<noteq> [] \<and> (\<forall>x \<in> set frac. isdigit x))))"

definition parse_optional :: "string \<Rightarrow> arg_kind" where
  "parse_optional arg =
     (if arg = [] then Positional
      else if hd arg \<noteq> CHR ''-'' then Positional
      else if arg = ''-h'' \<or> arg = ''--help'' then Opt_help None
      else if arg = ''-t'' \<or> arg = ''--top'' then Opt_top None
      else if length arg = 1 then Positional
      else if arg = ''--'' then Other_form
      else if take 2 arg = ''-h'' \<or> take 2 arg = ''-t'' then Other_form
      else if take 2 arg = ''--'' \<and> startswith ''--help'' (before_eq arg) \<and>
              startswith ''--top'' (before_eq arg)
        then Ambiguous_option
      else if take 2 arg = ''--'' \<and> startswith ''--help'' (before_eq arg)
        then Opt_help (after_eq arg)
      else if take 2 arg = ''--'' \<and> startswith ''--top'' (before_eq arg)
        then Opt_top (after_eq arg)
      else if negative_number arg then Positional
      else if CHR '' '' \<in> set arg then Positional
      else Unknown_option)"

text \<open>
  The argument strings are then consumed from left to right; \<open>u\<close> is the \<open>url\<close> found so
  far, \<open>t\<close> the value of \<open>top\<close>, and \<open>extras\<close> says that some string found no taker.
  \<^item> The first positional string is the \<open>url\<close>; a further one finds no taker.
  \<^item> \<open>--help\<close> prints the help and exits with status 0; with an explicit argument it is an
    error.
  \<^item> \<open>--top\<close> takes its explicit argument, or else the next string, which must be
    positional; the string is converted by \<open>int\<close>. A missing argument and a string that
    \<open>int\<close> refuses are errors.
  \<^item> An unknown option finds no taker.
  \<^item> At the end a missing \<open>url\<close> is an error, and so is a string that found no taker.
  Every error ends the process with status 2.
\<close>

fun consume :: "string list \<Rightarrow> string option \<Rightarrow> int \<Rightarrow> bool \<Rightarrow> namespace outcome" where
  "consume [] None t extras = SystemExit 2"
| "consume [] (Some u) t extras =
     (if extras then SystemExit 2 else Returned \<lparr>url = u, top = t\<rparr>)"
| "consume (arg # rest) u t extras =
     (case parse_optional arg of
        Positional \<Rightarrow>
          (case u of None \<Rightarrow> consume rest (Some arg) t extras
           | Some v \<Rightarrow> consume rest u t True)
      | Opt_help None \<Rightarrow> SystemExit 0
      | Opt_help (Some e) \<Rightarrow> SystemExit 2
      | Opt_top (Some e) \<Rightarrow>
          (case py_int e of None \<Rightarrow> SystemExit 2 | Some n \<Rightarrow> consume rest u n extras)
      | Opt_top None \<Rightarrow>
          (case rest of
             [] \<Rightarrow> SystemExit 2
           | v # rest' \<Rightarrow>
               if parse_optional v = Positional
               then (case py_int v of None \<Rightarrow> SystemExit 2 | Some n \<Rightarrow> consume rest' u n extras)
               else SystemExit 2)
      | _ \<Rightarrow> consume rest u t True)"

section \<open>The functions of \<open>scraper.py\<close>\<close>

definition STOP_WORDS :: "string set" where
  "STOP_WORDS = {''a'', ''an'', ''and'', ''are'', ''as'', ''at'', ''be'', ''by'', ''for'',
     ''from'', ''has'', ''he'', ''in'', ''is'', ''it'', ''its'', ''of'', ''on'', ''that'',
     ''the'', ''to'', ''was'', ''were'', ''with''}"

text \<open>
  \<open>fetch_html(url)\<close> returns the text of the response, or logs the failure of the request
  and calls \<open>sys.exit(1)\<close>. The request itself is the parameter \<open>http_get\<close>, with \<open>None\<close> for
  a request that raises.
\<close>

definition fetch_html :: "(string \<Rightarrow> string option) \<Rightarrow> string \<Rightarrow> string outcome" where
  "fetch_html http_get u =
     (case http_get u of None \<Rightarrow> SystemExit 1 | Some response_text \<Rightarrow> Returned response_text)"

text \<open>The names in the loop of \<open>visible_text_from_soup\<close>.\<close>

definition NON_VISIBLE :: "string list" where
  "NON_VISIBLE = [''script'', ''style'', ''noscript'', ''template'']"

text \<open>
  The generator \<open>gen\<close> inside \<open>visible_text_from_soup\<close>:
  \<^verbatim>\<open>for element in soup.stripped_strings:
    if isinstance(element, NavigableString) and not isinstance(element, Tag):
        yield unescape(element)\<close>
  \<open>html.unescape\<close> is a parameter.
\<close>

definition gen :: "(string \<Rightarrow> string) \<Rightarrow> soup \<Rightarrow> string list" where
  "gen unescape soup =
     map (\<lambda>element. unescape (str_of element))
       (filter (\<lambda>element. isinstance_NavigableString element \<and> \<not> isinstance_Tag element)
          (stripped_strings soup))"

text \<open>
  \<open>visible_text_from_soup(soup)\<close>:
  \<^verbatim>\<open>for tag in soup(["script", "style", "noscript", "template"]):
    tag.decompose()
...
return " ".join(gen())\<close>
  The list of tags is found first, then each is decomposed in turn. The function works on
  the tree it is given, so the tree after the call is returned with the text.
\<close>

definition visible_text_from_soup :: "(string \<Rightarrow> string) \<Rightarrow> soup \<Rightarrow> string \<times> soup" where
  "visible_text_from_soup unescape soup =
     (let soup' = foldl (\<lambda>s tag. decompose tag s) soup (find_all_names NON_VISIBLE soup)
      in (join '' '' (gen unescape soup'), soup'))"

text \<open>
  \<open>tokenise(text)\<close>:
  \<^verbatim>\<open>tokens = (match.group(0).lower() for match in TOKEN_RE.finditer(text))
return [tok for tok in tokens if tok not in STOP_WORDS]\<close>
\<close>

definition tokenise :: "string \<Rightarrow> string list" where
  "tokenise text = filter (\<lambda>tok. tok \<notin> STOP_WORDS) (map lower (finditer text))"

text \<open>\<open>top_n_words(tokens, n)\<close> is \<open>Counter(tokens).most_common(n)\<close>.\<close>

definition top_n_words :: "string list \<Rightarrow> int \<Rightarrow> (string \<times> nat) list" where
  "top_n_words tokens n = most_common (Some n) (Counter tokens)"

text \<open>
  \<open>tag_frequencies(soup)\<close>:
  \<^verbatim>\<open>tags = (tag.name.lower() for tag in soup.find_all(True))
return Counter(tags).most_common()\<close>
\<close>

definition tag_frequencies :: "soup \<Rightarrow> (string \<times> nat) list" where
  "tag_frequencies soup =
     most_common None (Counter (map (\<lambda>tag. lower (tag_name tag)) (find_all_True soup)))"

text \<open>
  \<open>parse_args(argv)\<close> builds the parser and calls \<open>parser.parse_args(argv)\<close>. All argument
  strings are sorted by \<open>_parse_optional\<close> before any is consumed, and an ambiguous option
  is an error there.
\<close>

definition parse_args :: "string list \<Rightarrow> namespace outcome" where
  "parse_args argv =
     (if \<exists>arg \<in> set argv. parse_optional arg = Other_form then Not_modelled
      else if \<exists>arg \<in> set argv. parse_optional arg = Ambiguous_option then SystemExit 2
      else consume argv None 100 False)"

text \<open>
  \<open>main(argv)\<close>, in two parts. The first runs up to the call of \<open>top_n_words\<close> and returns
  what \<open>main\<close> holds there: \<open>args\<close>, \<open>tag_counts\<close> and \<open>tokens\<close>.
  \<^verbatim>\<open>args = parse_args(argv)
html = fetch_html(args.url)
soup = BeautifulSoup(html, "lxml")
tag_counts = tag_frequencies(soup)
text = visible_text_from_soup(soup)
tokens = tokenise(text)\<close>
  The parser \<open>BeautifulSoup(html, "lxml")\<close> is a parameter.
\<close>

definition main_before_top_n_words ::
  "(string \<Rightarrow> string option) \<Rightarrow> (string \<Rightarrow> soup) \<Rightarrow> (string \<Rightarrow> string) \<Rightarrow> string list \<Rightarrow>
   (namespace \<times> (string \<times> nat) list \<times> string list) outcome" where
  "main_before_top_n_words http_get BeautifulSoup unescape argv =
     (case parse_args argv of
        SystemExit code \<Rightarrow> SystemExit code
      | Not_modelled \<Rightarrow> Not_modelled
      | Returned args \<Rightarrow>
          (case fetch_html http_get (url args) of
             SystemExit code \<Rightarrow> SystemExit code
           | Not_modelled \<Rightarrow> Not_modelled
           | Returned html \<Rightarrow>
               (let soup = BeautifulSoup html;
                    tag_counts = tag_frequencies soup;
                    (text, soup') = visible_text_from_soup unescape soup;
                    tokens = tokenise text
                in Returned (args, tag_counts, tokens))))"

text \<open>
  The second part:
  \<^verbatim>\<open>word_counts = top_n_words(tokens, args.top)
report = render_report(args.url, word_counts, tag_counts)
print(report)\<close>
  \<open>main\<close> returns nothing; what is returned here are the three arguments of
  \<open>render_report\<close>, from which the printed report is formatted.
\<close>

definition main ::
  "(string \<Rightarrow> string option) \<Rightarrow> (string \<Rightarrow> soup) \<Rightarrow> (string \<Rightarrow> string) \<Rightarrow> string list \<Rightarrow>
   (string \<times> (string \<times> nat) list \<times> (string \<times> nat) list) outcome" where
  "main http_get BeautifulSoup unescape argv =
     (case main_before_top_n_words http_get BeautifulSoup unescape argv of
        SystemExit code \<Rightarrow> SystemExit code
      | Not_modelled \<Rightarrow> Not_modelled
      | Returned (args, tag_counts, tokens) \<Rightarrow>
          (let word_counts = top_n_words tokens (top args)
           in Returned (url args, word_counts, tag_counts)))"

section \<open>Notions for stating the properties\<close>

subsection \<open>Ranking\<close>

text \<open>The position of the first occurrence of a key in the scanned sequence.\<close>

definition first_pos :: "'k list \<Rightarrow> 'k \<Rightarrow> nat" where
  "first_pos keys k = length (takeWhile (\<lambda>x. x \<noteq> k) keys)"

subsection \<open>Runs of letters\<close>

text \<open>
  The maximal runs of letters of a text, from left to right: at a letter, the run is the
  letters from there up to the next character that is no letter.
\<close>

function letter_runs :: "string \<Rightarrow> string list" where
  "letter_runs [] = []"
| "letter_runs (c # cs) =
     (if is_ascii_alpha c
      then takeWhile is_ascii_alpha (c # cs) # letter_runs (dropWhile is_ascii_alpha cs)
      else letter_runs cs)"
  by pat_completeness auto
termination
  by (relation "measure length") (auto simp: less_Suc_eq_le length_dropWhile_le)

text \<open>
  \<open>r\<close>, standing between \<open>pre\<close> and \<open>post\<close>, is a maximal run of letters: it is not empty,
  it has letters only, and no letter stands next to it on either side.
\<close>

definition maximal_run :: "string \<Rightarrow> string \<Rightarrow> string \<Rightarrow> bool" where
  "maximal_run pre r post =
     (r \<noteq> [] \<and> (\<forall>c \<in> set r. is_ascii_alpha c) \<and>
      (pre = [] \<or> \<not> is_ascii_alpha (last pre)) \<and>
      (post = [] \<or> \<not> is_ascii_alpha (hd post)))"

text \<open>The letters \<open>a\<close> to \<open>z\<close>.\<close>

definition is_lower_letter :: "char \<Rightarrow> bool" where
  "is_lower_letter c = (97 \<le> (of_char c :: nat) \<and> (of_char c :: nat) \<le> 122)"

text \<open>
  An upper-case letter, \<open>str.isupper\<close> for one character: \<open>A\<close> to \<open>Z\<close>, and the code
  points 192 to 222 except the multiplication sign 215.
\<close>

definition is_upper :: "char \<Rightarrow> bool" where
  "is_upper c =
     (let n = (of_char c :: nat) in (65 \<le> n \<and> n \<le> 90) \<or> (192 \<le> n \<and> n \<le> 222 \<and> n \<noteq> 215))"

subsection \<open>Trees\<close>

text \<open>The tags of a tree are distinct objects.\<close>

definition distinct_idents :: "soup \<Rightarrow> bool" where
  "distinct_idents soup = distinct (map ident (find_all_True soup))"

text \<open>An element named \<open>script\<close>, \<open>style\<close>, \<open>noscript\<close> or \<open>template\<close>.\<close>

definition non_visible :: "node \<Rightarrow> bool" where
  "non_visible n = (is_Tag n \<and> tag_name n \<in> set NON_VISIBLE)"

text \<open>The tree without its non-visible elements and all that is below them.\<close>

fun prune_node :: "node \<Rightarrow> node" where
  "prune_node (Tag i nm kids) =
     Tag i nm (map prune_node (filter (\<lambda>k. \<not> non_visible k) kids))"
| "prune_node (Str c s) = Str c s"

definition prune :: "soup \<Rightarrow> soup" where
  "prune soup = map prune_node (filter (\<lambda>k. \<not> non_visible k) soup)"

text \<open>The strings of a tree in document order, each with its class.\<close>

fun strings_of :: "node \<Rightarrow> (string_class \<times> string) list" where
  "strings_of (Tag i nm kids) = concat (map strings_of kids)"
| "strings_of (Str c s) = [(c, s)]"

definition strings :: "soup \<Rightarrow> (string_class \<times> string) list" where
  "strings soup = concat (map strings_of soup)"

text \<open>The strings that are not inside a non-visible element, at whatever depth.\<close>

fun visible_strings_of :: "node \<Rightarrow> (string_class \<times> string) list" where
  "visible_strings_of (Tag i nm kids) =
     (if nm \<in> set NON_VISIBLE then [] else concat (map visible_strings_of kids))"
| "visible_strings_of (Str c s) = [(c, s)]"

definition visible_strings :: "soup \<Rightarrow> (string_class \<times> string) list" where
  "visible_strings soup = concat (map visible_strings_of soup)"

text \<open>
  What \<open>stripped_strings\<close> makes of a sequence of strings: those of class
  \<open>NavigableString\<close> or \<open>CData\<close>, stripped, without the empty ones.
\<close>

definition collected :: "(string_class \<times> string) list \<Rightarrow> element list" where
  "collected cs =
     map (\<lambda>(c, s). Py_str (strip s))
       (filter (\<lambda>(c, s). (c = NavigableString \<or> c = CData) \<and> strip s \<noteq> []) cs)"

text \<open>The number of elements of a tree.\<close>

fun count_tags :: "node \<Rightarrow> nat" where
  "count_tags (Tag i nm kids) = Suc (sum_list (map count_tags kids))"
| "count_tags (Str c s) = 0"

text \<open>
  The number of elements that a node keeps in the tree without its non-visible elements:
  none when the node is such an element itself.
\<close>

definition count_pruned :: "node \<Rightarrow> nat" where
  "count_pruned k = (if non_visible k then 0 else count_tags (prune_node k))"

text \<open>The tree without its comments.\<close>

fun is_comment :: "node \<Rightarrow> bool" where
  "is_comment (Tag i nm kids) = False"
| "is_comment (Str c s) = (c = Comment)"

fun remove_comments_node :: "node \<Rightarrow> node" where
  "remove_comments_node (Tag i nm kids) =
     Tag i nm (map remove_comments_node (filter (\<lambda>k. \<not> is_comment k) kids))"
| "remove_comments_node (Str c s) = Str c s"

definition remove_comments :: "soup \<Rightarrow> soup" where
  "remove_comments soup = map remove_comments_node (filter (\<lambda>k. \<not> is_comment k) soup)"

text \<open>The tree without the tags whose identity is in a set; what a run of \<open>decompose\<close> leaves.\<close>

fun drop_idents :: "nat set \<Rightarrow> node \<Rightarrow> node" where
  "drop_idents S (Tag j nm kids) =
     Tag j nm (map (drop_idents S) (filter (\<lambda>k. \<not> (is_Tag k \<and> ident k \<in> S)) kids))"
| "drop_idents S (Str c s) = Str c s"

definition drop_all :: "nat set \<Rightarrow> soup \<Rightarrow> soup" where
  "drop_all S soup = map (drop_idents S) (filter (\<lambda>k. \<not> (is_Tag k \<and> ident k \<in> S)) soup)"

subsection \<open>An example document\<close>

text \<open>
  The tree of the document
  \<^verbatim>\<open><!DOCTYPE html><html><body><script>ignored</script>
<noscript><p>hidden</p></noscript><!-- note --><p>The Cat sat. The cat RAN.</p></body></html>\<close>
\<close>

definition page :: soup where
  "page =
     [Str Doctype ''html'',
      Tag 0 ''html''
        [Tag 1 ''body''
           [Tag 2 ''script'' [Str Script ''ignored''],
            Tag 3 ''noscript'' [Tag 4 ''p'' [Str NavigableString ''hidden'']],
            Str Comment '' note '',
            Tag 5 ''p'' [Str NavigableString ''The Cat sat. The cat RAN.'']]]]"

text \<open>
  A document without a letter in its visible text, a server that answers every request with
  it, and a parser for it.
\<close>

definition numbers_html :: string where
  "numbers_html = ''<html><body><script>ignored</script><p>123 456</p></body></html>''"

definition numbers_page :: soup where
  "numbers_page =
     [Tag 0 ''html''
        [Tag 1 ''body''
           [Tag 2 ''script'' [Str Script ''ignored''],
            Tag 3 ''p'' [Str NavigableString ''123 456'']]]]"

definition example_http_get :: "string \<Rightarrow> string option" where
  "example_http_get u = Some numbers_html"

definition example_parser :: "string \<Rightarrow> soup" where
  "example_parser html = numbers_page"

text \<open>A tree with the same tag name in two spellings, and a \<open>script\<close> element.\<close>

definition mixed_case_page :: soup where
  "mixed_case_page =
     [Tag 0 ''DIV'' [Tag 1 ''div'' [], Tag 2 ''script'' [Str Script ''x'']]]"

section \<open>Properties of the aggregation\<close>

subsection \<open>The dictionary\<close>

lemma dict_set_keys:
  "map fst (dict_set d k v) = (if k \<in> fst ` set d then map fst d else map fst d @ [k])"
  by (induction d) force+

lemma dict_get_dict_set:
  "dict_get (dict_set d k v) k' dflt = (if k' = k then v else dict_get d k' dflt)"
  by (induction d) auto

lemma sum_dict_set:
  "sum_list (map snd (dict_set d k (Suc (dict_get d k 0)))) = Suc (sum_list (map snd d))"
  by (induction d) auto

lemma count_elements_snoc:
  "count_elements d (ks @ [k]) =
     dict_set (count_elements d ks) k (dict_get (count_elements d ks) k 0 + 1)"
  by (simp add: count_elements_def)

lemma Counter_snoc:
  "Counter (ks @ [k]) = dict_set (Counter ks) k (dict_get (Counter ks) k 0 + 1)"
  by (simp add: Counter_def count_elements_snoc)

lemma Counter_Nil: "Counter [] = []"
  by (simp add: Counter_def count_elements_def)

lemma Counter_key_set: "fst ` set (Counter ks) = set ks"
proof (induction ks rule: rev_induct)
  case Nil
  show ?case by (simp add: Counter_Nil)
next
  case (snoc k ks)
  have "set (map fst (Counter (ks @ [k]))) = insert k (set (map fst (Counter ks)))"
    unfolding Counter_snoc dict_set_keys by auto
  with snoc show ?case by simp
qed

lemma Counter_keys_snoc:
  "map fst (Counter (ks @ [k])) =
     (if k \<in> set ks then map fst (Counter ks) else map fst (Counter ks) @ [k])"
  by (simp add: Counter_snoc dict_set_keys Counter_key_set)

lemma Counter_distinct: "distinct (map fst (Counter ks))"
proof (induction ks rule: rev_induct)
  case Nil
  show ?case by (simp add: Counter_Nil)
next
  case (snoc k ks)
  have "k \<notin> set ks \<Longrightarrow> k \<notin> set (map fst (Counter ks))"
    using Counter_key_set [of ks] by simp
  with snoc show ?case by (simp add: Counter_keys_snoc)
qed

lemma Counter_length: "length (Counter ks) = card (set ks)"
proof -
  have "length (Counter ks) = length (map fst (Counter ks))" by simp
  also have "\<dots> = card (set (map fst (Counter ks)))"
    using Counter_distinct [of ks] by (simp only: distinct_card)
  also have "\<dots> = card (set ks)" using Counter_key_set [of ks] by simp
  finally show ?thesis .
qed

lemma Counter_sum: "sum_list (map snd (Counter ks)) = length ks"
  by (induction ks rule: rev_induct) (simp_all add: Counter_Nil Counter_snoc sum_dict_set)

lemma Counter_get: "dict_get (Counter ks) k 0 = count_list ks k"
  by (induction ks arbitrary: k rule: rev_induct)
    (simp_all add: Counter_Nil Counter_snoc dict_get_dict_set)

lemma dict_get_member:
  "distinct (map fst d) \<Longrightarrow> (k, v) \<in> set d \<Longrightarrow> dict_get d k dflt = v"
  by (induction d) (auto simp: image_iff)

lemma Counter_count: "(k, c) \<in> set (Counter ks) \<Longrightarrow> c = count_list ks k"
  using dict_get_member [OF Counter_distinct, of k c ks 0] Counter_get [of ks k] by simp

subsection \<open>Ranking\<close>

lemma sorted_reverse_Nil: "sorted_reverse [] = []"
  by (simp add: sorted_reverse_def)

lemma length_sorted_reverse: "length (sorted_reverse items) = length items"
  by (simp add: sorted_reverse_def)

lemma set_sorted_reverse: "set (sorted_reverse items) = set items"
  by (simp add: sorted_reverse_def)

lemma hd_insort_key:
  "hd (insort_key f a xs) = (if xs = [] \<or> f a \<le> f (hd xs) then a else hd xs)"
  by (cases xs) auto

lemma max_first_hd: "max_first b xs = hd (sorted_reverse (b # xs))"
proof (induction xs arbitrary: b)
  case Nil
  show ?case by (simp add: sorted_reverse_def)
next
  case (Cons x xs)
  let ?f = "\<lambda>kv::'a \<times> nat. - int (snd kv)"
  have "max_first b (x # xs) = hd (sorted_reverse ((if snd b < snd x then x else b) # xs))"
    using Cons.IH by simp
  also have "\<dots> = hd (insort_key ?f (if snd b < snd x then x else b) (sort_key ?f xs))"
    by (simp add: sorted_reverse_def)
  also have "\<dots> = hd (insort_key ?f b (insort_key ?f x (sort_key ?f xs)))"
    by (simp add: hd_insort_key)
  finally show ?case by (simp add: sorted_reverse_def)
qed

text \<open>
  The heap of \<open>nlargest\<close> selects what the sort would put first. While the items are
  scanned, the heap, sorted, is the first \<open>m\<close> entries of the sorted list of the items seen
  so far: an item with a count above the least count of the heap replaces the least tuple,
  and since its order is below every order in the heap, it comes behind the tuples of equal
  count, as the stable sort puts a later item behind the earlier ones.
\<close>

lemma sorted_dropWhile_greater:
  "sorted (map g S) \<Longrightarrow> b \<in> set (dropWhile (\<lambda>y. g y \<le> g x) S) \<Longrightarrow> g x < g b"
proof (induction S)
  case Nil
  then show ?case by simp
next
  case (Cons a S)
  show ?case
  proof (cases "g a \<le> g x")
    case True
    with Cons show ?thesis by simp
  next
    case False
    with Cons.prems have "g a \<le> g b" by auto
    with False show ?thesis by simp
  qed
qed

lemma sort_key_snoc:
  "sort_key g (xs @ [x]) =
     takeWhile (\<lambda>y. g y \<le> g x) (sort_key g xs) @ x # dropWhile (\<lambda>y. g y \<le> g x) (sort_key g xs)"
proof (rule properties_for_sort_key)
  let ?S = "sort_key g xs"
  let ?tw = "takeWhile (\<lambda>y. g y \<le> g x) ?S"
  let ?dw = "dropWhile (\<lambda>y. g y \<le> g x) ?S"
  have split: "?tw @ ?dw = ?S" by simp
  have "mset ?tw + mset ?dw = mset ?S"
    by (simp only: mset_append [symmetric] split)
  then show "mset (?tw @ x # ?dw) = mset (xs @ [x])" by simp
  have greater: "g x < g b" if "b \<in> set ?dw" for b
    using sorted_dropWhile_greater [of g ?S b x] that by simp
  have "sorted_wrt (\<lambda>a b. g a \<le> g b) ?S"
    using sorted_sort_key [of g xs] by (simp only: sorted_map)
  then have parts: "sorted (map g ?tw)" "sorted (map g ?dw)"
    by (simp_all add: sorted_map)
  show "sorted (map g (?tw @ x # ?dw))"
    using parts greater by (auto simp: sorted_append dest: set_takeWhileD less_imp_le
        intro: order_trans)
  fix k
  assume "k \<in> set (?tw @ x # ?dw)"
  have stable: "filter (\<lambda>y. g k = g y) ?S = filter (\<lambda>y. g k = g y) xs"
    using sort_key_stable [of g "g k" xs] by (simp add: eq_commute)
  have "filter (\<lambda>y. g k = g y) ?tw @ filter (\<lambda>y. g k = g y) ?dw = filter (\<lambda>y. g k = g y) ?S"
    by (simp only: filter_append [symmetric] split)
  moreover have "filter (\<lambda>y. g k = g y) ?dw = []" if eq: "g k = g x"
  proof -
    have "g k \<noteq> g b" if "b \<in> set ?dw" for b
      using greater [OF that] eq by simp
    then show ?thesis by (simp add: filter_empty_conv)
  qed
  ultimately show "filter (\<lambda>y. g k = g y) (?tw @ x # ?dw) = filter (\<lambda>y. g k = g y) (xs @ [x])"
    using stable by auto
qed

lemma take_insert_back:
  "j < length S \<Longrightarrow> \<not> Q (S ! j) \<Longrightarrow>
   take (Suc j) (takeWhile Q S @ e # dropWhile Q S) =
     takeWhile Q (take j S) @ e # dropWhile Q (take j S)"
proof (induction S arbitrary: j)
  case Nil
  then show ?case by simp
next
  case (Cons a S)
  show ?case
  proof (cases "Q a")
    case True
    with Cons.prems obtain j' where j: "j = Suc j'" by (cases j) auto
    with Cons.prems have "j' < length S" "\<not> Q (S ! j')" by simp_all
    from Cons.IH [OF this] True j show ?thesis by simp
  next
    case False
    then show ?thesis by (cases j) simp_all
  qed
qed

lemma take_insert_behind:
  "m \<le> length S \<Longrightarrow> \<forall>i < m. Q (S ! i) \<Longrightarrow> take m (takeWhile Q S @ rest) = take m S"
proof (induction S arbitrary: m)
  case Nil
  then show ?case by simp
next
  case (Cons a S)
  show ?case
  proof (cases m)
    case 0
    then show ?thesis by simp
  next
    case (Suc m')
    with Cons.prems have "Q a" by auto
    moreover from Cons.prems Suc have "m' \<le> length S" "\<forall>i < m'. Q (S ! i)" by auto
    ultimately show ?thesis using Cons.IH [of m'] Suc by simp
  qed
qed

lemma sort_reverse_snoc:
  assumes "\<forall>y \<in> set H. fst (snd new) < fst (snd y)"
  shows "sort_reverse (H @ [new]) =
           takeWhile (\<lambda>y. fst new \<le> fst y) (sort_reverse H) @
           new # dropWhile (\<lambda>y. fst new \<le> fst y) (sort_reverse H)"
proof -
  let ?kd = "\<lambda>d::'a decorated. (- int (fst d), - fst (snd d))"
  have same: "(?kd y \<le> ?kd new) = (fst new \<le> fst y)" if "y \<in> set (sort_reverse H)" for y
  proof -
    from that assms have "fst (snd new) < fst (snd y)" by (simp add: sort_reverse_def)
    then show ?thesis by auto
  qed
  have "takeWhile (\<lambda>y. ?kd y \<le> ?kd new) (sort_reverse H) =
        takeWhile (\<lambda>y. fst new \<le> fst y) (sort_reverse H)"
    by (rule takeWhile_cong [OF refl]) (erule same)
  moreover have "dropWhile (\<lambda>y. ?kd y \<le> ?kd new) (sort_reverse H) =
        dropWhile (\<lambda>y. fst new \<le> fst y) (sort_reverse H)"
    by (rule dropWhile_cong [OF refl]) (erule same)
  ultimately show ?thesis
    using sort_key_snoc [of ?kd H new] by (simp only: sort_reverse_def)
qed

lemma sorted_le_last: "sorted xs \<Longrightarrow> x \<in> set xs \<Longrightarrow> x \<le> last xs"
  by (induction xs) (auto split: if_splits)

lemma heap_min_last:
  assumes "H \<noteq> []" and "distinct (map (\<lambda>d. fst (snd d)) H)"
  shows "heap_min H = last (sort_reverse H)"
proof -
  let ?kd = "\<lambda>d::'a decorated. (- int (fst d), - fst (snd d))"
  let ?l = "last (sort_reverse H)"
  have "length (sort_reverse H) = length H" by (simp add: sort_reverse_def)
  with assms(1) have ne: "sort_reverse H \<noteq> []" by auto
  then have l: "?l \<in> set H"
    using last_in_set [of "sort_reverse H"] by (simp add: sort_reverse_def)
  have "dec_key ?l \<le> dec_key y" if "y \<in> set H" for y
  proof -
    have "sorted (map ?kd (sort_reverse H))" by (simp add: sort_reverse_def)
    moreover from that have "?kd y \<in> set (map ?kd (sort_reverse H))"
      by (simp add: sort_reverse_def)
    ultimately have "?kd y \<le> last (map ?kd (sort_reverse H))" by (rule sorted_le_last)
    then have "?kd y \<le> ?kd ?l" using ne by (simp add: last_map)
    then show ?thesis by (auto simp: dec_key_def)
  qed
  then have "dec_key ?l = Min (dec_key ` set H)"
    using l by (intro Min_eqI [symmetric]) auto
  also have "\<dots> = dec_key (heap_min H)"
    using f_arg_min_list_f [OF assms(1), of dec_key] by (simp add: heap_min_def)
  finally have "fst (snd ?l) = fst (snd (heap_min H))" by (simp add: dec_key_def)
  moreover have "heap_min H \<in> set H"
    using arg_min_list_in [OF assms(1), of dec_key] by (simp add: heap_min_def)
  ultimately show ?thesis
    using assms(2) l by (auto simp: distinct_map dest: inj_onD)
qed

lemma sort_reverse_remove_last:
  assumes "H \<noteq> []" and "distinct (map (\<lambda>d. fst (snd d)) H)"
  shows "sort_reverse (remove1 (last (sort_reverse H)) H) = butlast (sort_reverse H)"
proof -
  let ?kd = "\<lambda>d::'a decorated. (- int (fst d), - fst (snd d))"
  let ?D = "sort_reverse H"
  have "length ?D = length H" by (simp add: sort_reverse_def)
  with assms(1) have ne: "?D \<noteq> []" by auto
  then have "butlast ?D @ [last ?D] = ?D" by simp
  then have "mset (butlast ?D) + {#last ?D#} = mset ?D"
    by (metis mset.simps(1) mset.simps(2) mset_append add.right_neutral union_mset_add_mset_right)
  moreover have "mset ?D = mset H" by (simp add: sort_reverse_def)
  ultimately have "mset H = mset (butlast ?D) + {#last ?D#}" by simp
  then have "mset H - {#last ?D#} = mset (butlast ?D)" by (simp only: add_diff_cancel_right')
  then have m: "mset (remove1 (last ?D) H) = mset (butlast ?D)" by simp
  have "inj_on (\<lambda>d::'a decorated. fst (snd d)) (set H)"
    using assms(2) by (simp add: distinct_map)
  then have "inj_on ?kd (set H)" by (auto simp: inj_on_def)
  then have i: "inj_on ?kd (set (remove1 (last ?D) H))"
    by (rule inj_on_subset) (rule set_remove1_subset)
  have "sorted (butlast (map ?kd ?D))"
    by (rule sorted_butlast) (simp_all add: sort_reverse_def ne assms(1))
  then have s: "sorted (map ?kd (butlast ?D))" by (simp add: map_butlast)
  from sort_key_inj_key_eq [OF m i s] show ?thesis by (simp add: sort_reverse_def)
qed

lemma sorted_reverse_snoc:
  "sorted_reverse (P @ [e]) =
     takeWhile (\<lambda>x. snd e \<le> snd x) (sorted_reverse P) @
     e # dropWhile (\<lambda>x. snd e \<le> snd x) (sorted_reverse P)"
  by (simp add: sorted_reverse_def sort_key_snoc)

lemma sorted_reverse_nth_mono:
  "i \<le> j \<Longrightarrow> j < length items \<Longrightarrow>
   snd (sorted_reverse items ! j) \<le> snd (sorted_reverse items ! i)"
proof -
  assume ij: "i \<le> j" "j < length items"
  let ?S = "sorted_reverse items"
  have "sorted (map (\<lambda>kv. - int (snd kv)) ?S)" by (simp add: sorted_reverse_def)
  moreover from ij have "j < length (map (\<lambda>kv. - int (snd kv)) ?S)"
    by (simp add: length_sorted_reverse)
  ultimately have "map (\<lambda>kv. - int (snd kv)) ?S ! i \<le> map (\<lambda>kv. - int (snd kv)) ?S ! j"
    using ij(1) by (intro sorted_nth_mono)
  with ij show ?thesis by (simp add: length_sorted_reverse)
qed

lemma map_elem_split:
  assumes "\<forall>d \<in> set B. fst d = snd (snd (snd d))"
  shows "map (\<lambda>d. snd (snd d))
           (takeWhile (\<lambda>y. c \<le> fst y) B @ new # dropWhile (\<lambda>y. c \<le> fst y) B) =
         takeWhile (\<lambda>x. c \<le> snd x) (map (\<lambda>d. snd (snd d)) B) @
         snd (snd new) # dropWhile (\<lambda>x. c \<le> snd x) (map (\<lambda>d. snd (snd d)) B)"
proof -
  have same: "(c \<le> fst y) = (((\<lambda>x. c \<le> snd x) \<circ> (\<lambda>d. snd (snd d))) y)" if "y \<in> set B" for y
    using assms that by simp
  have "takeWhile (\<lambda>y. c \<le> fst y) B = takeWhile ((\<lambda>x. c \<le> snd x) \<circ> (\<lambda>d. snd (snd d))) B"
    by (rule takeWhile_cong [OF refl]) (erule same)
  moreover have "dropWhile (\<lambda>y. c \<le> fst y) B =
      dropWhile ((\<lambda>x. c \<le> snd x) \<circ> (\<lambda>d. snd (snd d))) B"
    by (rule dropWhile_cong [OF refl]) (erule same)
  ultimately show ?thesis by (simp add: takeWhile_map dropWhile_map)
qed

lemma distinct_map_remove1: "distinct (map f xs) \<Longrightarrow> distinct (map f (remove1 x xs))"
proof (induction xs)
  case Nil
  show ?case by simp
next
  case (Cons a xs)
  have "f a \<notin> f ` set (remove1 x xs)" if "f a \<notin> f ` set xs"
    using that set_remove1_subset [of x xs] by auto
  with Cons show ?case by auto
qed

lemma nlargest_scan_take:
  assumes "map (\<lambda>d. snd (snd d)) (sort_reverse H) = take m (sorted_reverse P)"
    and "0 < m" and "m \<le> length P"
    and "\<forall>d \<in> set H. fst d = snd (snd (snd d))"
    and "\<forall>d \<in> set H. order < fst (snd d)"
    and "distinct (map (\<lambda>d. fst (snd d)) H)"
  shows "map (\<lambda>d. snd (snd d)) (sort_reverse (nlargest_scan H order R)) =
           take m (sorted_reverse (P @ R))"
  using assms
proof (induction R arbitrary: H order P)
  case Nil
  then show ?case by simp
next
  case (Cons e R)
  let ?el = "\<lambda>d::'a decorated. snd (snd d)"
  let ?S = "sorted_reverse P"
  let ?D = "sort_reverse H"
  let ?Q = "\<lambda>x::'a \<times> nat. snd e \<le> snd x"
  have lenS: "length ?S = length P" by (rule length_sorted_reverse)
  have "length (map ?el ?D) = length (take m ?S)" by (simp only: Cons.prems(1))
  then have lenD: "length ?D = m" using Cons.prems(3) lenS by simp
  then have lenH: "length H = m" by (simp add: sort_reverse_def)
  with Cons.prems(2) have Hne: "H \<noteq> []" by auto
  from lenD Cons.prems(2) have Dne: "?D \<noteq> []" by auto
  have min: "heap_min H = last ?D" by (rule heap_min_last [OF Hne Cons.prems(6)])
  have lastH: "last ?D \<in> set H"
    using last_in_set [OF Dne] by (simp add: sort_reverse_def)
  have "?el (last ?D) = last (map ?el ?D)" using Dne by (simp add: last_map)
  also have "\<dots> = last (take m ?S)" by (simp only: Cons.prems(1))
  also have "\<dots> = ?S ! (m - 1)"
  proof -
    have len: "length (take m ?S) = m" using Cons.prems(3) lenS by simp
    with Cons.prems(2) have "take m ?S \<noteq> []" by auto
    then have "last (take m ?S) = take m ?S ! (length (take m ?S) - 1)"
      by (rule last_conv_nth)
    also have "\<dots> = ?S ! (m - 1)" using Cons.prems(2) by (simp only: len) simp
    finally show ?thesis .
  qed
  finally have "?el (last ?D) = ?S ! (m - 1)" .
  with lastH Cons.prems(4) min have top: "fst (heap_min H) = snd (?S ! (m - 1))" by simp
  have m1: "m - 1 < length ?S" using Cons.prems(2,3) lenS by simp
  have Sm: "Suc (m - 1) = m" using Cons.prems(2) by simp
  show ?case
  proof (cases "fst (heap_min H) < snd e")
    case True
    let ?new = "(snd e, order, e)"
    let ?H' = "heapreplace H ?new"
    let ?B = "butlast ?D"
    have H': "?H' = remove1 (last ?D) H @ [?new]" by (simp add: heapreplace_def min)
    have below: "\<forall>y \<in> set (remove1 (last ?D) H). fst (snd ?new) < fst (snd y)"
      using Cons.prems(5) set_remove1_subset [of "last ?D" H] by auto
    have setB: "set ?B \<subseteq> set H"
      using in_set_butlastD [of _ ?D] by (auto simp: sort_reverse_def)
    have "sort_reverse ?H' =
        takeWhile (\<lambda>y. snd e \<le> fst y) ?B @ ?new # dropWhile (\<lambda>y. snd e \<le> fst y) ?B"
      using sort_reverse_snoc [OF below]
      by (simp add: H' sort_reverse_remove_last [OF Hne Cons.prems(6)])
    then have "map ?el (sort_reverse ?H') =
        takeWhile ?Q (map ?el ?B) @ e # dropWhile ?Q (map ?el ?B)"
      using map_elem_split [of ?B "snd e" ?new] setB Cons.prems(4) by auto
    moreover have "map ?el ?B = take (m - 1) ?S"
    proof -
      have "map ?el ?B = butlast (map ?el ?D)" by (simp add: map_butlast)
      also have "\<dots> = butlast (take m ?S)" by (simp only: Cons.prems(1))
      also have "\<dots> = take (m - 1) ?S"
        using Cons.prems(3) lenS by (simp add: butlast_take)
      finally show ?thesis .
    qed
    moreover have "\<not> ?Q (?S ! (m - 1))" using True top by simp
    with m1 have "take (Suc (m - 1)) (takeWhile ?Q ?S @ e # dropWhile ?Q ?S) =
        takeWhile ?Q (take (m - 1) ?S) @ e # dropWhile ?Q (take (m - 1) ?S)"
      by (rule take_insert_back [where Q = ?Q])
    then have "take m (takeWhile ?Q ?S @ e # dropWhile ?Q ?S) =
        takeWhile ?Q (take (m - 1) ?S) @ e # dropWhile ?Q (take (m - 1) ?S)"
      by (simp only: Sm)
    ultimately have inv: "map ?el (sort_reverse ?H') = take m (sorted_reverse (P @ [e]))"
      by (simp only: sorted_reverse_snoc)
    have keys: "\<forall>d \<in> set ?H'. fst d = snd (snd (snd d))"
      using Cons.prems(4) set_remove1_subset [of "last ?D" H] by (auto simp: H')
    have ords: "\<forall>d \<in> set ?H'. order - 1 < fst (snd d)"
    proof
      fix d
      assume "d \<in> set ?H'"
      then have "d = ?new \<or> d \<in> set H"
        using set_remove1_subset [of "last ?D" H] by (auto simp: H')
      then show "order - 1 < fst (snd d)" using Cons.prems(5) by fastforce
    qed
    have "order \<notin> (\<lambda>d. fst (snd d)) ` set (remove1 (last ?D) H)"
      using below by auto
    then have dist: "distinct (map (\<lambda>d. fst (snd d)) ?H')"
      using Cons.prems(6) by (simp add: H' distinct_map_remove1)
    have "m \<le> length (P @ [e])" using Cons.prems(3) by simp
    from Cons.IH [OF inv Cons.prems(2) this keys ords dist] True
    show ?thesis by simp
  next
    case False
    have "\<forall>i < m. ?Q (?S ! i)"
    proof (intro allI impI)
      fix i
      assume "i < m"
      with Cons.prems(3) have "snd (?S ! (m - 1)) \<le> snd (?S ! i)"
        by (intro sorted_reverse_nth_mono) simp_all
      with False top show "?Q (?S ! i)" by simp
    qed
    with take_insert_behind [of m ?S ?Q "e # dropWhile ?Q ?S"] Cons.prems(3) lenS
    have "take m (sorted_reverse (P @ [e])) = take m ?S"
      by (simp add: sorted_reverse_snoc)
    with Cons.prems(1) have inv: "map ?el ?D = take m (sorted_reverse (P @ [e]))" by simp
    have "m \<le> length (P @ [e])" using Cons.prems(3) by simp
    from Cons.IH [OF inv Cons.prems(2) this Cons.prems(4,5,6)] False
    show ?thesis by simp
  qed
qed

lemma decorate_snoc:
  "decorate (int (length (xs @ [x]))) (xs @ [x]) =
     decorate (int (length xs)) xs @ [(snd x, - int (length xs), x)]"
proof -
  have l: "nat (int (length (xs @ [x]))) = Suc (length xs)" by (simp only: nat_int) simp
  have a: "[0 ..< nat (int (length (xs @ [x])))] = [0 ..< length xs] @ [length xs]"
    unfolding l by simp
  have b: "zip ([0 ..< length xs] @ [length xs]) (xs @ [x]) =
      zip [0 ..< length xs] xs @ [(length xs, x)]"
    by simp
  have c: "nat (int (length xs)) = length xs" by simp
  show ?thesis unfolding decorate_def a b c by simp
qed

lemma decorate_whole:
  "map (\<lambda>d. snd (snd d)) (sort_reverse (decorate (int (length xs)) xs)) = sorted_reverse xs \<and>
   (\<forall>d \<in> set (decorate (int (length xs)) xs).
      fst d = snd (snd (snd d)) \<and> - int (length xs) < fst (snd d)) \<and>
   distinct (map (\<lambda>d. fst (snd d)) (decorate (int (length xs)) xs))"
proof (induction xs rule: rev_induct)
  case Nil
  show ?case by (simp add: decorate_def sort_reverse_def sorted_reverse_Nil)
next
  case (snoc x xs)
  let ?H = "decorate (int (length xs)) xs"
  let ?new = "(snd x, - int (length xs), x)"
  from snoc have sorted: "map (\<lambda>d. snd (snd d)) (sort_reverse ?H) = sorted_reverse xs"
    and keys: "\<forall>d \<in> set ?H. fst d = snd (snd (snd d))"
    and ords: "\<forall>d \<in> set ?H. - int (length xs) < fst (snd d)"
    and dist: "distinct (map (\<lambda>d. fst (snd d)) ?H)"
    by blast+
  from ords have below: "\<forall>y \<in> set ?H. fst (snd ?new) < fst (snd y)" by simp
  have keysD: "\<forall>d \<in> set (sort_reverse ?H). fst d = snd (snd (snd d))"
    using keys by (simp add: sort_reverse_def)
  have "map (\<lambda>d. snd (snd d)) (sort_reverse (?H @ [?new])) = sorted_reverse (xs @ [x])"
    using map_elem_split [OF keysD, of "snd x" ?new]
    by (simp add: sort_reverse_snoc [OF below] sorted sorted_reverse_snoc)
  moreover have "\<forall>d \<in> set (?H @ [?new]).
      fst d = snd (snd (snd d)) \<and> - int (length (xs @ [x])) < fst (snd d)"
    using keys ords by fastforce
  moreover have "- int (length xs) \<notin> (\<lambda>d. fst (snd d)) ` set ?H" using ords by auto
  then have "distinct (map (\<lambda>d. fst (snd d)) (?H @ [?new]))" using dist by simp
  ultimately show ?case by (simp only: decorate_snoc)
qed

lemma zip_take_length: "zip xs ys = zip xs (take (length xs) ys)"
  by (induction xs ys rule: list_induct2') simp_all

lemma decorate_take:
  "0 \<le> n \<Longrightarrow> nat n \<le> length items \<Longrightarrow>
   decorate n items = decorate (int (length (take (nat n) items))) (take (nat n) items)"
proof -
  assume n: "0 \<le> n" "nat n \<le> length items"
  then have a: "nat (int (length (take (nat n) items))) = nat n" by simp
  have "zip [0 ..< nat n] items = zip [0 ..< nat n] (take (length [0 ..< nat n]) items)"
    by (rule zip_take_length)
  then have b: "zip [0 ..< nat n] items = zip [0 ..< nat n] (take (nat n) items)" by simp
  show ?thesis unfolding decorate_def a by (simp only: b [symmetric])
qed

lemma nlargest_eq:
  "nlargest n items = (if n \<le> 0 then [] else take (nat n) (sorted_reverse items))"
proof (cases "n = 1")
  case True
  show ?thesis
  proof (cases items)
    case Nil
    with True show ?thesis by (simp add: nlargest_def sorted_reverse_Nil)
  next
    case (Cons x xs)
    have ne: "sorted_reverse (x # xs) \<noteq> []"
      using length_sorted_reverse [of "x # xs"] by auto
    have "take 1 (sorted_reverse (x # xs)) = [hd (sorted_reverse (x # xs))]"
      using ne by (cases "sorted_reverse (x # xs)") simp_all
    with True Cons show ?thesis by (simp add: nlargest_def max_first_hd)
  qed
next
  case False
  show ?thesis
  proof (cases "int (length items) \<le> n")
    case True
    have "sorted_reverse items = []" if "n \<le> 0"
    proof -
      from True that have "length items = 0" by linarith
      then have "items = []" by simp
      then show ?thesis by (simp add: sorted_reverse_Nil)
    qed
    with False True show ?thesis
      using length_sorted_reverse [of items] by (auto simp: nlargest_def slice_to_def)
  next
    case long: False
    show ?thesis
    proof (cases "n \<le> 0")
      case True
      then have "decorate n items = []" by (simp add: decorate_def)
      with False long True show ?thesis by (simp add: nlargest_def)
    next
      case pos: False
      let ?m = "nat n"
      let ?P = "take ?m items"
      let ?H = "decorate n items"
      from pos long have m: "0 < ?m" "?m \<le> length items" "length ?P = ?m" by simp_all
      have H: "?H = decorate (int (length ?P)) ?P"
        using decorate_take [of n items] pos m(2) by simp
      from pos m(3) have order: "- int (length ?P) = - n" by simp
      note whole = decorate_whole [of ?P]
      from whole [THEN conjunct1]
      have sorted: "map (\<lambda>d. snd (snd d)) (sort_reverse ?H) = sorted_reverse ?P"
        by (simp only: H [symmetric])
      from whole [THEN conjunct2, THEN conjunct1]
      have both: "\<forall>d \<in> set ?H. fst d = snd (snd (snd d)) \<and> - n < fst (snd d)"
        by (simp only: H [symmetric] order)
      then have keys: "\<forall>d \<in> set ?H. fst d = snd (snd (snd d))" by simp
      from both have ords: "\<forall>d \<in> set ?H. - n < fst (snd d)" by simp
      from whole [THEN conjunct2, THEN conjunct2]
      have dist: "distinct (map (\<lambda>d. fst (snd d)) ?H)"
        by (simp only: H [symmetric])
      have "length (sorted_reverse ?P) = ?m" using m(3) by (simp only: length_sorted_reverse)
      then have "take ?m (sorted_reverse ?P) = sorted_reverse ?P" by simp
      with sorted have inv: "map (\<lambda>d. snd (snd d)) (sort_reverse ?H) = take ?m (sorted_reverse ?P)"
        by simp
      have "?m \<le> length ?P" using m(3) by simp
      from nlargest_scan_take [OF inv m(1) this keys ords dist, of "drop ?m items"]
      have "map (\<lambda>d. snd (snd d)) (sort_reverse (nlargest_scan ?H (- n) (drop ?m items))) =
          take ?m (sorted_reverse items)"
        by simp
      moreover have "?H \<noteq> []"
      proof
        assume "?H = []"
        with sorted have "sorted_reverse ?P = []" by (simp add: sort_reverse_def)
        with m(1,3) length_sorted_reverse [of ?P] show False by simp
      qed
      ultimately have "nlargest n items = take ?m (sorted_reverse items)"
        using False long by (simp only: nlargest_def Let_def if_False)
      with pos show ?thesis by simp
    qed
  qed
qed


lemma top_n_words_eq:
  "top_n_words tokens n =
     (if n \<le> 0 then [] else take (nat n) (sorted_reverse (Counter tokens)))"
  by (simp add: top_n_words_def most_common_def nlargest_eq)

subsection \<open>Order of the ranking\<close>

lemma first_pos_snoc:
  "first_pos (ks @ [k]) a =
     (if a \<in> set ks then first_pos ks a else if a = k then length ks else Suc (length ks))"
proof (cases "a \<in> set ks")
  case True
  then show ?thesis
    using takeWhile_append1 [of a ks "\<lambda>x. x \<noteq> a" "[k]"] by (simp add: first_pos_def)
next
  case False
  then have "takeWhile (\<lambda>x. x \<noteq> a) ks = ks" by (auto simp: takeWhile_eq_all_conv)
  with False show ?thesis by (simp add: first_pos_def takeWhile_append)
qed

lemma first_pos_less: "a \<in> set ks \<Longrightarrow> first_pos ks a < length ks"
  by (induction ks) (auto simp: first_pos_def)

lemma Counter_keys_first_seen:
  "sorted_wrt (\<lambda>a b. first_pos ks a < first_pos ks b) (map fst (Counter ks))"
proof (induction ks rule: rev_induct)
  case Nil
  show ?case by (simp add: Counter_Nil)
next
  case (snoc k ks)
  have old: "sorted_wrt (\<lambda>a b. first_pos (ks @ [k]) a < first_pos (ks @ [k]) b)
               (map fst (Counter ks))"
  proof (rule sorted_wrt_mono_rel [OF _ snoc.IH])
    fix x y
    assume "x \<in> set (map fst (Counter ks))" "y \<in> set (map fst (Counter ks))"
      and "first_pos ks x < first_pos ks y"
    then show "first_pos (ks @ [k]) x < first_pos (ks @ [k]) y"
      using Counter_key_set [of ks] by (simp add: first_pos_snoc)
  qed
  show ?case
  proof (cases "k \<in> set ks")
    case True
    with old show ?thesis by (simp add: Counter_keys_snoc)
  next
    case False
    have "\<forall>x \<in> set (map fst (Counter ks)). first_pos (ks @ [k]) x < first_pos (ks @ [k]) k"
      using Counter_key_set [of ks] False by (auto simp: first_pos_snoc first_pos_less)
    with old False show ?thesis by (simp add: Counter_keys_snoc sorted_wrt_append)
  qed
qed

lemma insort_key_stable_wrt:
  assumes "sorted_wrt (\<lambda>a b. f a \<le> f b \<and> (f a = f b \<longrightarrow> Q a b)) ys"
    and "\<forall>y \<in> set ys. Q x y"
  shows "sorted_wrt (\<lambda>a b. f a \<le> f b \<and> (f a = f b \<longrightarrow> Q a b)) (insort_key f x ys)"
  using assms by (induction ys) (auto simp: set_insort_key)

lemma sort_key_stable_wrt:
  "sorted_wrt Q xs \<Longrightarrow>
   sorted_wrt (\<lambda>a b. f a \<le> f b \<and> (f a = f b \<longrightarrow> Q a b)) (sort_key f xs)"
  by (induction xs) (auto intro: insort_key_stable_wrt)

lemma sorted_reverse_ranked:
  "sorted_wrt (\<lambda>a b. snd b \<le> snd a \<and>
      (snd a = snd b \<longrightarrow> first_pos ks (fst a) < first_pos ks (fst b)))
     (sorted_reverse (Counter ks))"
proof -
  have "sorted_wrt (\<lambda>a b. first_pos ks (fst a) < first_pos ks (fst b)) (Counter ks)"
    using Counter_keys_first_seen [of ks] by (simp add: sorted_wrt_map)
  from sort_key_stable_wrt [OF this, of "\<lambda>kv. - int (snd kv)"]
  show ?thesis by (simp add: sorted_reverse_def)
qed

lemma most_common_take:
  "\<exists>m. most_common n items = take m (sorted_reverse items)"
proof (cases n)
  case None
  have "sorted_reverse items = take (length items) (sorted_reverse items)"
    by (simp add: length_sorted_reverse)
  with None show ?thesis unfolding most_common_def by (metis option.simps(4))
next
  case (Some m)
  have "nlargest m items = take (if m \<le> 0 then 0 else nat m) (sorted_reverse items)"
    by (simp add: nlargest_eq)
  with Some show ?thesis unfolding most_common_def by (metis option.simps(5))
qed

lemma sum_sorted_reverse:
  "sum_list (map snd (sorted_reverse items)) = sum_list (map snd items)"
proof -
  have "mset (map snd (sorted_reverse items)) = mset (map snd items)"
    by (simp add: sorted_reverse_def)
  then show ?thesis by (metis sum_mset_sum_list)
qed

lemma sum_list_take_le: "sum_list (take m (xs::nat list)) \<le> sum_list xs"
  by (metis append_take_drop_id le_add1 sum_list_append)

section \<open>Properties of the tokeniser\<close>

lemma finditer_runs: "finditer s = filter (\<lambda>r. 2 \<le> length r) (letter_runs s)"
proof (induction s rule: finditer.induct)
  case 1
  show ?case by simp
next
  case (2 c cs)
  show ?case
  proof (cases "is_ascii_alpha c")
    case False
    with 2 show ?thesis by simp
  next
    case True
    show ?thesis
    proof (cases "2 \<le> length (takeWhile is_ascii_alpha (c # cs))")
      case long: True
      with 2(1) True show ?thesis by simp
    next
      case short: False
      with True have "takeWhile is_ascii_alpha cs = []"
        by (cases "takeWhile is_ascii_alpha cs") simp_all
      then have "dropWhile is_ascii_alpha cs = cs"
        by (metis append_Nil takeWhile_dropWhile_id)
      with 2(2) True short show ?thesis by simp
    qed
  qed
qed

lemma lower_char_alpha: "is_ascii_alpha c \<Longrightarrow> is_lower_letter (lower_char c)"
  unfolding is_ascii_alpha_def is_lower_letter_def lower_char_def Let_def
  by auto

lemma filter_split_takeWhile:
  "filter P xs = takeWhile P xs @ filter P (dropWhile P xs)"
  by (induction xs) auto

lemma letter_runs_concat: "concat (letter_runs s) = filter is_ascii_alpha s"
proof (induction s rule: letter_runs.induct)
  case 1
  show ?case by simp
next
  case (2 c cs)
  show ?case
  proof (cases "is_ascii_alpha c")
    case True
    with 2(1) show ?thesis
      using filter_split_takeWhile [of is_ascii_alpha cs] by simp
  next
    case False
    with 2(2) show ?thesis by simp
  qed
qed

lemma letter_runs_maximal:
  "r \<in> set (letter_runs s) \<Longrightarrow> \<exists>pre post. s = pre @ r @ post \<and> maximal_run pre r post"
proof (induction s rule: letter_runs.induct)
  case 1
  then show ?case by simp
next
  case (2 c cs)
  let ?run = "takeWhile is_ascii_alpha (c # cs)"
  let ?rest = "dropWhile is_ascii_alpha cs"
  show ?case
  proof (cases "is_ascii_alpha c")
    case False
    with 2(3) have "r \<in> set (letter_runs cs)" by simp
    from 2(2) [OF False this] obtain pre post where
      p: "cs = pre @ r @ post" and m: "maximal_run pre r post" by blast
    from m False have "maximal_run (c # pre) r post"
      by (auto simp: maximal_run_def)
    with p have "c # cs = (c # pre) @ r @ post \<and> maximal_run (c # pre) r post" by simp
    then show ?thesis by blast
  next
    case True
    then have split: "c # cs = ?run @ ?rest" by simp
    have stop: "?rest = [] \<or> \<not> is_ascii_alpha (hd ?rest)"
      by (metis hd_dropWhile)
    from 2(3) True have "r = ?run \<or> r \<in> set (letter_runs ?rest)" by simp
    then show ?thesis
    proof
      assume r: "r = ?run"
      have "maximal_run [] ?run ?rest"
        using True stop by (auto simp: maximal_run_def dest: set_takeWhileD)
      moreover have "c # cs = [] @ ?run @ ?rest" by (simp only: append_Nil) (rule split)
      ultimately show ?thesis unfolding r by blast
    next
      assume "r \<in> set (letter_runs ?rest)"
      from 2(1) [OF True this] obtain pre post where
        p: "?rest = pre @ r @ post" and m: "maximal_run pre r post" by blast
      from m have r: "r \<noteq> []" "is_ascii_alpha (hd r)"
        by (simp_all add: maximal_run_def)
      have "pre \<noteq> []"
      proof
        assume "pre = []"
        with p r(1) have "hd ?rest = hd r" "?rest \<noteq> []" by simp_all
        with stop r(2) show False by simp
      qed
      with m have "maximal_run (?run @ pre) r post" by (simp add: maximal_run_def)
      moreover have "?run @ ?rest = (?run @ pre) @ r @ post"
        by (simp only: p append_assoc)
      with split have "c # cs = (?run @ pre) @ r @ post" by (rule trans)
      ultimately show ?thesis by blast
    qed
  qed
qed

lemma lower_length: "length (lower s) = length s"
  by (simp add: lower_def)

lemma lower_letters: "\<forall>c \<in> set r. is_ascii_alpha c \<Longrightarrow> \<forall>c \<in> set (lower r). is_lower_letter c"
  by (auto simp: lower_def lower_char_alpha)

text \<open>Lower-casing leaves no upper-case letter, and changes nothing else.\<close>

lemma lower_char_upper:
  "is_upper c \<Longrightarrow> (of_char (lower_char c) :: nat) = of_char c + 32"
  unfolding is_upper_def lower_char_def Let_def
  by (auto simp: of_char_of)

lemma lower_char_other: "\<not> is_upper c \<Longrightarrow> lower_char c = c"
  unfolding is_upper_def lower_char_def Let_def by auto

lemma lower_char_not_upper: "\<not> is_upper (lower_char c)"
proof (cases "is_upper c")
  case True
  from lower_char_upper [OF this] True show ?thesis
    unfolding is_upper_def Let_def by auto
next
  case False
  then show ?thesis by (simp add: lower_char_other)
qed

lemma lower_not_upper: "c \<in> set (lower s) \<Longrightarrow> \<not> is_upper c"
  by (auto simp: lower_def lower_char_not_upper)

lemma lower_nth:
  "i < length s \<Longrightarrow>
   (if is_upper (s ! i) then (of_char (lower s ! i) :: nat) = of_char (s ! i) + 32
    else lower s ! i = s ! i)"
  by (simp add: lower_def lower_char_upper lower_char_other)

lemma lower_fixed: "\<forall>c \<in> set s. \<not> is_upper c \<Longrightarrow> lower s = s"
  by (simp add: lower_def lower_char_other map_idI)

section \<open>Properties of the tree operations\<close>

subsection \<open>The loop of \<open>decompose\<close>\<close>

lemma drop_idents_is_Tag [simp]: "is_Tag (drop_idents S n) = is_Tag n"
  by (cases n) simp_all

lemma drop_idents_ident [simp]: "ident (drop_idents S n) = ident n"
  by (cases n) simp_all

lemma is_element_drop_idents [simp]: "is_element tag (drop_idents S n) = is_element tag n"
  by (simp add: is_element_def)

lemma without_element_drop_idents:
  "is_Tag tag \<Longrightarrow> without_element tag (drop_idents S n) = drop_idents (insert (ident tag) S) n"
proof (induction n)
  case (Tag j nm kids)
  have p: "(\<lambda>k. \<not> is_element tag k \<and> \<not> (is_Tag k \<and> ident k \<in> S)) =
           (\<lambda>k. \<not> (is_Tag k \<and> ident k \<in> insert (ident tag) S))"
    using Tag.prems by (auto simp: is_element_def)
  have "map (without_element tag)
          (filter (\<lambda>k. \<not> is_element tag k)
             (map (drop_idents S) (filter (\<lambda>k. \<not> (is_Tag k \<and> ident k \<in> S)) kids))) =
        map (\<lambda>k. without_element tag (drop_idents S k))
          (filter (\<lambda>k. \<not> is_element tag k \<and> \<not> (is_Tag k \<and> ident k \<in> S)) kids)"
    by (simp add: filter_map o_def conj_commute)
  also have "\<dots> = map (drop_idents (insert (ident tag) S))
          (filter (\<lambda>k. \<not> is_element tag k \<and> \<not> (is_Tag k \<and> ident k \<in> S)) kids)"
    using Tag by (intro map_cong) auto
  finally show ?case by (simp only: drop_idents.simps without_element.simps p)
next
  case (Str c s)
  show ?case by simp
qed

lemma decompose_drop_all:
  assumes "is_Tag tag"
  shows "decompose tag (drop_all S soup) = drop_all (insert (ident tag) S) soup"
proof -
  have p: "(\<lambda>k. \<not> is_element tag k \<and> \<not> (is_Tag k \<and> ident k \<in> S)) =
           (\<lambda>k. \<not> (is_Tag k \<and> ident k \<in> insert (ident tag) S))"
    using assms by (auto simp: is_element_def)
  have "decompose tag (drop_all S soup) =
        map (\<lambda>k. without_element tag (drop_idents S k))
          (filter (\<lambda>k. \<not> is_element tag k \<and> \<not> (is_Tag k \<and> ident k \<in> S)) soup)"
    by (simp add: decompose_def drop_all_def filter_map o_def conj_commute)
  then show ?thesis
    by (simp only: without_element_drop_idents [OF assms] p drop_all_def)
qed

lemma drop_idents_empty: "drop_idents {} n = n"
  by (induction n) (simp_all add: map_idI)

lemma drop_all_empty: "drop_all {} soup = soup"
  by (simp add: drop_all_def drop_idents_empty map_idI)

lemma decompose_loop_drop_all:
  "\<forall>tag \<in> set tags. is_Tag tag \<Longrightarrow>
   foldl (\<lambda>s tag. decompose tag s) (drop_all S soup) tags = drop_all (S \<union> ident ` set tags) soup"
proof (induction tags arbitrary: S)
  case Nil
  show ?case by simp
next
  case (Cons tag tags)
  then show ?case by (simp add: decompose_drop_all)
qed

lemma subtree_self: "n \<in> set (subtree n)"
  by (cases n) simp_all

lemma subtree_kids: "k \<in> set kids \<Longrightarrow> set (subtree k) \<subseteq> set (subtree (Tag j nm kids))"
  by auto

lemma drop_idents_prune_node:
  "\<forall>t \<in> set (subtree n). is_Tag t \<longrightarrow> (ident t \<in> S \<longleftrightarrow> non_visible t) \<Longrightarrow>
   drop_idents S n = prune_node n"
proof (induction n)
  case (Tag j nm kids)
  have kid: "is_Tag k \<longrightarrow> (ident k \<in> S \<longleftrightarrow> non_visible k)" if "k \<in> set kids" for k
    using Tag.prems that subtree_self [of k] by auto
  then have f: "filter (\<lambda>k. \<not> (is_Tag k \<and> ident k \<in> S)) kids = filter (\<lambda>k. \<not> non_visible k) kids"
    by (intro filter_cong) (auto simp: non_visible_def)
  have "drop_idents S k = prune_node k" if "k \<in> set kids" for k
    using Tag.IH [OF that] Tag.prems that by auto
  then have "map (drop_idents S) (filter (\<lambda>k. \<not> non_visible k) kids) =
             map prune_node (filter (\<lambda>k. \<not> non_visible k) kids)"
    by (intro map_cong) auto
  with f show ?case by (simp add: non_visible_def)
next
  case (Str c s)
  show ?case by simp
qed

lemma drop_all_prune:
  assumes "\<forall>t \<in> set (descendants soup). is_Tag t \<longrightarrow> (ident t \<in> S \<longleftrightarrow> non_visible t)"
  shows "drop_all S soup = prune soup"
proof -
  have kid: "is_Tag k \<longrightarrow> (ident k \<in> S \<longleftrightarrow> non_visible k)" if "k \<in> set soup" for k
    using assms that subtree_self [of k] by (auto simp: descendants_def)
  then have f: "filter (\<lambda>k. \<not> (is_Tag k \<and> ident k \<in> S)) soup = filter (\<lambda>k. \<not> non_visible k) soup"
    by (intro filter_cong) (auto simp: non_visible_def)
  have "drop_idents S k = prune_node k" if "k \<in> set soup" for k
    using assms that by (intro drop_idents_prune_node) (auto simp: descendants_def)
  then have "map (drop_idents S) (filter (\<lambda>k. \<not> non_visible k) soup) =
             map prune_node (filter (\<lambda>k. \<not> non_visible k) soup)"
    by (intro map_cong) auto
  with f show ?thesis by (simp add: drop_all_def prune_def non_visible_def)
qed

lemma decompose_loop_prune:
  assumes "distinct_idents soup"
  shows "foldl (\<lambda>s tag. decompose tag s) soup (find_all_names NON_VISIBLE soup) = prune soup"
proof -
  let ?tags = "find_all_names NON_VISIBLE soup"
  have tags: "\<forall>tag \<in> set ?tags. is_Tag tag" by (simp add: find_all_names_def)
  have inj: "inj_on ident (set (find_all_True soup))"
    using assms by (simp add: distinct_idents_def distinct_map)
  have "ident t \<in> ident ` set ?tags \<longleftrightarrow> non_visible t"
    if t: "t \<in> set (descendants soup)" "is_Tag t" for t
  proof
    assume "ident t \<in> ident ` set ?tags"
    then obtain t' where t': "t' \<in> set ?tags" "ident t' = ident t" by auto
    from t have "t \<in> set (find_all_True soup)" by (simp add: find_all_True_def)
    moreover from t' have "t' \<in> set (find_all_True soup)"
      by (simp add: find_all_True_def find_all_names_def)
    ultimately have "t' = t" using inj t'(2) by (auto dest: inj_onD)
    with t' show "non_visible t" by (simp add: find_all_names_def non_visible_def)
  next
    assume "non_visible t"
    with t have "t \<in> set ?tags" by (simp add: find_all_names_def non_visible_def)
    then show "ident t \<in> ident ` set ?tags" by simp
  qed
  then have "drop_all ({} \<union> ident ` set ?tags) soup = prune soup"
    by (intro drop_all_prune) auto
  with decompose_loop_drop_all [OF tags, of "{}" soup] show ?thesis
    by (simp add: drop_all_empty)
qed

subsection \<open>The strings that are collected\<close>

lemma all_strings_strip_append:
  "all_strings_strip (xs @ ys) = all_strings_strip xs @ all_strings_strip ys"
  by (induction xs rule: all_strings_strip.induct) simp_all

lemma all_strings_strip_concat:
  "all_strings_strip (concat xss) = concat (map all_strings_strip xss)"
  by (induction xss) (simp_all add: all_strings_strip_append)

lemma collected_append: "collected (xs @ ys) = collected xs @ collected ys"
  by (simp add: collected_def)

lemma collected_concat: "collected (concat xss) = concat (map collected xss)"
  by (induction xss) (simp_all add: collected_append, simp add: collected_def)

lemma all_strings_strip_subtree:
  "all_strings_strip (subtree n) = collected (strings_of n)"
proof (induction n)
  case (Tag i nm kids)
  then have eq: "map (\<lambda>k. all_strings_strip (subtree k)) kids = map (\<lambda>k. collected (strings_of k)) kids"
    by (intro map_cong) auto
  show ?case
    by (simp add: all_strings_strip_concat collected_concat o_def eq)
next
  case (Str c s)
  show ?case by (simp add: collected_def)
qed

lemma stripped_strings_collected: "stripped_strings soup = collected (strings soup)"
  by (simp add: stripped_strings_def descendants_def strings_def all_strings_strip_concat
      collected_concat o_def all_strings_strip_subtree)

lemma visible_strings_of_hidden: "non_visible n \<Longrightarrow> visible_strings_of n = []"
  by (cases n) (simp_all add: non_visible_def)

lemma concat_map_filter_empty:
  "(\<And>x. x \<in> set xs \<Longrightarrow> \<not> P x \<Longrightarrow> g x = []) \<Longrightarrow>
   (\<And>x. x \<in> set xs \<Longrightarrow> P x \<Longrightarrow> f x = g x) \<Longrightarrow>
   concat (map f (filter P xs)) = concat (map g xs)"
  by (induction xs) auto

lemma strings_of_prune_node:
  "\<not> non_visible n \<Longrightarrow> strings_of (prune_node n) = visible_strings_of n"
proof (induction n)
  case (Tag i nm kids)
  have "concat (map (\<lambda>k. strings_of (prune_node k)) (filter (\<lambda>k. \<not> non_visible k) kids)) =
        concat (map visible_strings_of kids)"
    using Tag.IH by (intro concat_map_filter_empty) (auto simp: visible_strings_of_hidden)
  with Tag.prems show ?case by (simp add: non_visible_def o_def)
next
  case (Str c s)
  show ?case by simp
qed

lemma strings_prune: "strings (prune soup) = visible_strings soup"
proof -
  have "concat (map (\<lambda>k. strings_of (prune_node k)) (filter (\<lambda>k. \<not> non_visible k) soup)) =
        concat (map visible_strings_of soup)"
    by (intro concat_map_filter_empty) (auto simp: visible_strings_of_hidden strings_of_prune_node)
  then show ?thesis by (simp add: strings_def prune_def visible_strings_def non_visible_def o_def)
qed

lemma prune_node_tags:
  "\<not> non_visible n \<Longrightarrow> t \<in> set (subtree (prune_node n)) \<Longrightarrow> \<not> non_visible t"
proof (induction n arbitrary: t)
  case (Tag i nm kids)
  from Tag.prems(2) have "t = prune_node (Tag i nm kids) \<or>
      (\<exists>k \<in> set kids. \<not> non_visible k \<and> t \<in> set (subtree (prune_node k)))"
    by (auto simp: non_visible_def)
  then show ?case
  proof
    assume "t = prune_node (Tag i nm kids)"
    with Tag.prems(1) show ?thesis by (simp add: non_visible_def)
  next
    assume "\<exists>k \<in> set kids. \<not> non_visible k \<and> t \<in> set (subtree (prune_node k))"
    with Tag.IH show ?thesis by blast
  qed
next
  case (Str c s)
  then show ?case by (simp add: non_visible_def)
qed

lemma prune_tags: "t \<in> set (descendants (prune soup)) \<Longrightarrow> \<not> non_visible t"
  using prune_node_tags by (auto simp: descendants_def prune_def non_visible_def)

lemma gen_Nil: "gen unescape soup = []"
proof -
  have "\<forall>e \<in> set (collected cs). \<not> isinstance_NavigableString e" for cs
    by (auto simp: collected_def)
  then have "filter (\<lambda>element. isinstance_NavigableString element \<and> \<not> isinstance_Tag element)
          (stripped_strings soup) = []"
    by (simp add: stripped_strings_collected filter_empty_conv)
  then show ?thesis by (simp add: gen_def)
qed

lemma length_find_all_True_subtree:
  "length (filter is_Tag (subtree n)) = count_tags n"
proof (induction n)
  case (Tag i nm kids)
  then have eq: "map (\<lambda>k. length (filter is_Tag (subtree k))) kids = map count_tags kids"
    by (intro map_cong) auto
  show ?case by (simp add: filter_concat length_concat o_def eq)
next
  case (Str c s)
  show ?case by simp
qed

lemma length_find_all_True: "length (find_all_True soup) = sum_list (map count_tags soup)"
  by (simp add: find_all_True_def descendants_def filter_concat length_concat o_def
      length_find_all_True_subtree)

lemma is_comment_strings: "is_comment n \<Longrightarrow> collected (strings_of n) = []"
  by (cases n) (simp_all add: collected_def)

lemma strings_of_remove_comments_node:
  "collected (strings_of (remove_comments_node n)) = collected (strings_of n)"
proof (induction n)
  case (Tag i nm kids)
  have "concat (map (\<lambda>k. collected (strings_of (remove_comments_node k)))
                 (filter (\<lambda>k. \<not> is_comment k) kids)) =
        concat (map (\<lambda>k. collected (strings_of k)) kids)"
    using Tag.IH by (intro concat_map_filter_empty) (auto simp: is_comment_strings)
  then show ?case by (simp add: collected_concat o_def)
next
  case (Str c s)
  show ?case by simp
qed

lemma stripped_strings_remove_comments:
  "stripped_strings (remove_comments soup) = stripped_strings soup"
proof -
  have "concat (map (\<lambda>k. collected (strings_of (remove_comments_node k)))
                 (filter (\<lambda>k. \<not> is_comment k) soup)) =
        concat (map (\<lambda>k. collected (strings_of k)) soup)"
    by (intro concat_map_filter_empty)
      (auto simp: is_comment_strings strings_of_remove_comments_node)
  then show ?thesis
    by (simp add: stripped_strings_collected strings_def remove_comments_def collected_concat o_def)
qed

text \<open>
  The tree after \<open>visible_text_from_soup\<close>, and its text. What \<open>stripped_strings\<close>
  yields is a built-in \<open>str\<close>, for which \<open>isinstance(element, NavigableString)\<close> is
  false: the generator yields nothing, and the text is empty for every tree.
\<close>

lemma visible_text_from_soup_text: "fst (visible_text_from_soup unescape soup) = []"
  by (simp add: visible_text_from_soup_def Let_def gen_Nil)

lemma visible_text_from_soup_tree:
  "distinct_idents soup \<Longrightarrow> snd (visible_text_from_soup unescape soup) = prune soup"
  by (simp add: visible_text_from_soup_def Let_def decompose_loop_prune)

lemma page_distinct: "distinct_idents page"
  by code_simp

lemma page_visible_strings:
  "collected (visible_strings page) = [Py_str ''The Cat sat. The cat RAN.'']"
  by code_simp

lemma distinct_keys_sorted_reverse:
  "distinct (map fst (sorted_reverse items)) = distinct (map fst items)"
proof -
  have "mset (map fst (sorted_reverse items)) = mset (map fst items)"
    by (simp add: sorted_reverse_def)
  then show ?thesis by (rule mset_eq_imp_distinct_iff)
qed

lemma tag_frequencies_keys:
  "fst ` set (tag_frequencies soup) = (\<lambda>tag. lower (tag_name tag)) ` set (find_all_True soup)"
  by (simp add: tag_frequencies_def most_common_def set_sorted_reverse Counter_key_set)

lemma tag_frequencies_non_visible:
  "\<forall>tag \<in> set (find_all_names NON_VISIBLE soup).
     lower (tag_name tag) \<in> fst ` set (tag_frequencies soup)"
  unfolding tag_frequencies_keys by (auto simp: find_all_names_def find_all_True_def)

lemma main_Returned:
  assumes "main http_get BeautifulSoup unescape argv = Returned (u, word_counts, tag_counts)"
  shows "\<exists>args html. parse_args argv = Returned args \<and> http_get (url args) = Some html \<and>
           u = url args \<and> tag_counts = tag_frequencies (BeautifulSoup html) \<and>
           word_counts =
             top_n_words (tokenise (fst (visible_text_from_soup unescape (BeautifulSoup html))))
               (top args)"
  using assms
  by (auto simp: main_def main_before_top_n_words_def fetch_html_def Let_def
      split: outcome.splits option.splits prod.splits)

lemma prune_fixed:
  assumes "find_all_names NON_VISIBLE soup \<noteq> []"
  shows "prune soup \<noteq> soup"
proof
  assume eq: "prune soup = soup"
  from assms obtain t where "t \<in> set (find_all_names NON_VISIBLE soup)"
    by (cases "find_all_names NON_VISIBLE soup") auto
  then have "t \<in> set (descendants soup)" "non_visible t"
    by (simp_all add: find_all_names_def non_visible_def)
  with prune_tags [of t soup] eq show False by simp
qed

lemma collected_sources:
  "e \<in> set (collected cs) \<Longrightarrow>
   \<exists>c s. (c, s) \<in> set cs \<and> (c = NavigableString \<or> c = CData) \<and> e = Py_str (strip s)"
  by (auto simp: collected_def)

subsection \<open>The tag counts of the filtered tree\<close>

text \<open>
  Taking the non-visible elements out of a tree that has one leaves fewer elements, so the
  tag counts of the two trees differ.
\<close>

lemma sum_pruned:
  "sum_list (map count_tags (map prune_node (filter (\<lambda>k. \<not> non_visible k) ks))) =
   sum_list (map count_pruned ks)"
  by (induction ks) (auto simp: count_pruned_def)

lemma count_tags_prune_node_le: "count_tags (prune_node n) \<le> count_tags n"
proof (induction n)
  case (Tag i nm kids)
  have "sum_list (map count_pruned kids) \<le> sum_list (map count_tags kids)"
    using Tag.IH by (intro sum_list_mono) (auto simp: count_pruned_def)
  then show ?case using sum_pruned [of kids] by simp
next
  case (Str c s)
  show ?case by simp
qed

lemma count_pruned_le: "count_pruned k \<le> count_tags k"
  by (simp add: count_pruned_def count_tags_prune_node_le)

lemma sum_count_pruned_less:
  assumes "k \<in> set ks" "count_pruned k < count_tags k"
  shows "sum_list (map count_pruned ks) < sum_list (map count_tags ks)"
proof -
  from assms(1) obtain as bs where ks: "ks = as @ k # bs" by (auto simp: in_set_conv_decomp)
  have a: "sum_list (map count_pruned as) \<le> sum_list (map count_tags as)"
    by (intro sum_list_mono) (rule count_pruned_le)
  have b: "sum_list (map count_pruned bs) \<le> sum_list (map count_tags bs)"
    by (intro sum_list_mono) (rule count_pruned_le)
  from a b assms(2) show ?thesis by (simp add: ks)
qed

lemma non_visible_count_pruned: "non_visible k \<Longrightarrow> count_pruned k < count_tags k"
  by (cases k) (simp_all add: count_pruned_def non_visible_def)

lemma count_tags_prune_node_less:
  "t \<in> set (subtree n) \<Longrightarrow> non_visible t \<Longrightarrow> \<not> non_visible n \<Longrightarrow>
   count_tags (prune_node n) < count_tags n"
proof (induction n)
  case (Tag i nm kids)
  from Tag.prems have "t \<noteq> Tag i nm kids" by auto
  with Tag.prems(1) obtain k where k: "k \<in> set kids" "t \<in> set (subtree k)" by auto
  have "count_pruned k < count_tags k"
  proof (cases "non_visible k")
    case True
    then show ?thesis by (rule non_visible_count_pruned)
  next
    case False
    with Tag.IH [OF k(1) k(2) Tag.prems(2)] show ?thesis by (simp add: count_pruned_def)
  qed
  from sum_count_pruned_less [OF k(1) this] show ?case using sum_pruned [of kids] by simp
next
  case (Str c s)
  then show ?case by (simp add: non_visible_def)
qed

lemma count_tags_prune_less:
  assumes "find_all_names NON_VISIBLE soup \<noteq> []"
  shows "sum_list (map count_tags (prune soup)) < sum_list (map count_tags soup)"
proof -
  from assms obtain t where "t \<in> set (find_all_names NON_VISIBLE soup)"
    by (cases "find_all_names NON_VISIBLE soup") auto
  then have t: "t \<in> set (descendants soup)" "non_visible t"
    by (simp_all add: find_all_names_def non_visible_def)
  then obtain k where k: "k \<in> set soup" "t \<in> set (subtree k)"
    by (auto simp: descendants_def)
  have "count_pruned k < count_tags k"
  proof (cases "non_visible k")
    case True
    then show ?thesis by (rule non_visible_count_pruned)
  next
    case False
    with count_tags_prune_node_less [OF k(2) t(2)] show ?thesis by (simp add: count_pruned_def)
  qed
  from sum_count_pruned_less [OF k(1) this] show ?thesis using sum_pruned [of soup] by (simp add: prune_def)
qed

lemma tag_frequencies_sum:
  "sum_list (map snd (tag_frequencies soup)) = sum_list (map count_tags soup)"
  by (simp add: tag_frequencies_def most_common_def sum_sorted_reverse Counter_sum
      length_find_all_True)

lemma tag_frequencies_prune:
  "tag_frequencies (prune soup) = tag_frequencies soup \<longleftrightarrow> find_all_names NON_VISIBLE soup = []"
proof
  assume eq: "tag_frequencies (prune soup) = tag_frequencies soup"
  show "find_all_names NON_VISIBLE soup = []"
  proof (rule ccontr)
    assume "find_all_names NON_VISIBLE soup \<noteq> []"
    from count_tags_prune_less [OF this] tag_frequencies_sum [of soup]
      tag_frequencies_sum [of "prune soup"] eq
    show False by simp
  qed
next
  assume e: "find_all_names NON_VISIBLE soup = []"
  have "\<And>n. (\<forall>t \<in> set (subtree n). \<not> non_visible t) \<Longrightarrow> prune_node n = n"
  proof -
    fix n show "(\<forall>t \<in> set (subtree n). \<not> non_visible t) \<Longrightarrow> prune_node n = n"
    proof (induction n)
      case (Tag i nm kids)
      have nv: "\<forall>k \<in> set kids. \<not> non_visible k"
        using Tag.prems subtree_self by fastforce
      then have f: "filter (\<lambda>k. \<not> non_visible k) kids = kids" by simp
      have "map prune_node kids = kids"
        using Tag.IH Tag.prems by (intro map_idI) auto
      with f show ?case by simp
    next
      case (Str c s)
      show ?case by simp
    qed
  qed
  moreover from e have all: "\<forall>t \<in> set (descendants soup). \<not> non_visible t"
    by (auto simp: find_all_names_def non_visible_def filter_empty_conv)
  ultimately have "map prune_node soup = soup"
    by (intro map_idI) (auto simp: descendants_def)
  moreover from all have "filter (\<lambda>k. \<not> non_visible k) soup = soup"
    using subtree_self by (fastforce simp: descendants_def)
  ultimately have "prune soup = soup" by (simp add: prune_def)
  then show "tag_frequencies (prune soup) = tag_frequencies soup" by simp
qed

section \<open>Claims about the aggregation\<close>

text \<open>
  C6: for every token sequence, \<open>top_n_words\<close> with \<open>n = 0\<close> returns the empty list, and with
  \<open>n\<close> at least the number of distinct tokens it returns every distinct entry: the whole
  ranking of the counter, one entry per distinct token, nothing cut and nothing added.
\<close>

theorem top_n_words_zero_and_clamp:
  "top_n_words tokens 0 = [] \<and>
   (int (card (set tokens)) \<le> n \<longrightarrow>
      top_n_words tokens n = most_common None (Counter tokens) \<and>
      length (top_n_words tokens n) = card (set tokens) \<and>
      fst ` set (top_n_words tokens n) = set tokens)"
proof -
  have len: "length (sorted_reverse (Counter tokens)) = card (set tokens)"
    by (simp add: length_sorted_reverse Counter_length)
  have keys: "fst ` set (sorted_reverse (Counter tokens)) = set tokens"
    by (simp add: set_sorted_reverse Counter_key_set)
  show ?thesis
  proof (cases "tokens = []")
    case True
    then show ?thesis
      by (simp add: top_n_words_eq most_common_def Counter_Nil sorted_reverse_Nil)
  next
    case False
    then have "0 < card (set tokens)" by (simp add: card_gt_0_iff)
    then show ?thesis using len keys
      by (auto simp: top_n_words_eq most_common_def)
  qed
qed

theorem top_n_words_zero_and_clamp_witness:
  "top_n_words [''cat'', ''sat'', ''cat'', ''ran''] 0 = [] \<and>
   int (card (set [''cat'', ''sat'', ''cat'', ''ran''])) \<le> 5 \<and>
   top_n_words [''cat'', ''sat'', ''cat'', ''ran''] 5 =
     most_common None (Counter [''cat'', ''sat'', ''cat'', ''ran'']) \<and>
   length (top_n_words [''cat'', ''sat'', ''cat'', ''ran''] 5) = 3"
proof -
  have c: "card (set [''cat'', ''sat'', ''cat'', ''ran'']) = 3" by code_simp
  have h: "int (card (set [''cat'', ''sat'', ''cat'', ''ran''])) \<le> 5" using c by simp
  from h top_n_words_zero_and_clamp [of "[''cat'', ''sat'', ''cat'', ''ran'']" 5]
  have "top_n_words [''cat'', ''sat'', ''cat'', ''ran''] 0 = [] \<and>
    top_n_words [''cat'', ''sat'', ''cat'', ''ran''] 5 =
      most_common None (Counter [''cat'', ''sat'', ''cat'', ''ran'']) \<and>
    length (top_n_words [''cat'', ''sat'', ''cat'', ''ran''] 5) =
      card (set [''cat'', ''sat'', ''cat'', ''ran''])"
    by blast
  then show ?thesis using h unfolding c by blast
qed

text \<open>
  C10: for every token sequence, \<open>top_n_words\<close> with a negative \<open>n\<close> raises nothing and
  returns the empty list, as it does for \<open>n = 0\<close>.
\<close>

theorem top_n_words_negative:
  "n < 0 \<Longrightarrow> top_n_words tokens n = [] \<and> top_n_words tokens n = top_n_words tokens 0"
  by (simp add: top_n_words_eq)

theorem top_n_words_negative_witness:
  "(-5::int) < 0 \<and> top_n_words [''cat'', ''sat'', ''cat''] (-5) = [] \<and>
   top_n_words [''cat'', ''sat'', ''cat''] (-5) = top_n_words [''cat'', ''sat'', ''cat''] 0"
proof -
  have h: "(-5::int) < 0" by simp
  show ?thesis
    using h top_n_words_negative [OF h, of "[''cat'', ''sat'', ''cat'']"] by blast
qed

text \<open>
  C4: for every key sequence, the list that \<open>Counter(keys).most_common\<close> returns, whole
  (\<open>tag_frequencies\<close>) or cut to \<open>n\<close> entries (\<open>top_n_words\<close>), is sorted by count
  descending, and of two entries with equal counts the one whose key appears first in the
  key sequence comes first. Every entry carries the number of occurrences of its key, and no
  key occurs twice.
\<close>

theorem most_common_ranked:
  assumes "ranked = most_common n (Counter keys)" and "i < j" and "j < length ranked"
  shows "snd (ranked ! j) \<le> snd (ranked ! i) \<and>
         (snd (ranked ! i) = snd (ranked ! j) \<longrightarrow>
            first_pos keys (fst (ranked ! i)) < first_pos keys (fst (ranked ! j))) \<and>
         fst (ranked ! i) \<noteq> fst (ranked ! j) \<and>
         snd (ranked ! i) = count_list keys (fst (ranked ! i)) \<and>
         snd (ranked ! j) = count_list keys (fst (ranked ! j))"
proof -
  let ?R = "\<lambda>a b. snd b \<le> snd a \<and>
      (snd a = snd b \<longrightarrow> first_pos keys (fst a) < first_pos keys (fst b))"
  obtain m where m: "ranked = take m (sorted_reverse (Counter keys))"
    using most_common_take assms(1) by blast
  have "sorted_wrt ?R ranked"
    unfolding m by (rule sorted_wrt_take [OF sorted_reverse_ranked])
  from sorted_wrt_nth_less [OF this assms(2,3)]
  have order: "?R (ranked ! i) (ranked ! j)" .
  have sub: "set ranked \<subseteq> set (Counter keys)"
    unfolding m using set_take_subset [of m "sorted_reverse (Counter keys)"]
    by (simp add: set_sorted_reverse)
  have "ranked ! i \<in> set ranked" "ranked ! j \<in> set ranked"
    using assms(2,3) by simp_all
  with sub have mem: "ranked ! i \<in> set (Counter keys)" "ranked ! j \<in> set (Counter keys)"
    by blast+
  have ci: "snd (ranked ! i) = count_list keys (fst (ranked ! i))"
    using Counter_count [of "fst (ranked ! i)" "snd (ranked ! i)" keys] mem(1) by simp
  have cj: "snd (ranked ! j) = count_list keys (fst (ranked ! j))"
    using Counter_count [of "fst (ranked ! j)" "snd (ranked ! j)" keys] mem(2) by simp
  have "fst (ranked ! i) \<noteq> fst (ranked ! j)"
  proof
    assume e: "fst (ranked ! i) = fst (ranked ! j)"
    with ci cj have "snd (ranked ! i) = snd (ranked ! j)" by simp
    with order e show False by simp
  qed
  with order ci cj show ?thesis by blast
qed

theorem most_common_ranked_witness:
  "most_common None (Counter [''b'', ''a'', ''c'', ''a'', ''c'']) =
     [(''a'', 2), (''c'', 2), (''b'', 1)] \<and>
   (0::nat) < 1 \<and> 1 < length (most_common None (Counter [''b'', ''a'', ''c'', ''a'', ''c''])) \<and>
   first_pos [''b'', ''a'', ''c'', ''a'', ''c''] ''a'' <
     first_pos [''b'', ''a'', ''c'', ''a'', ''c''] ''c''"
proof -
  let ?K = "[''b'', ''a'', ''c'', ''a'', ''c'']"
  have e: "most_common None (Counter ?K) = [(''a'', 2), (''c'', 2), (''b'', 1)]"
    by code_simp
  have i: "(0::nat) < 1" by simp
  have j: "1 < length (most_common None (Counter ?K))" by (simp add: e)
  from most_common_ranked [OF refl i j]
  have "snd (most_common None (Counter ?K) ! 0) = snd (most_common None (Counter ?K) ! 1) \<longrightarrow>
        first_pos ?K (fst (most_common None (Counter ?K) ! 0)) <
        first_pos ?K (fst (most_common None (Counter ?K) ! 1))"
    by blast
  then have "first_pos ?K ''a'' < first_pos ?K ''c''" by (simp add: e)
  with e i j show ?thesis by blast
qed

text \<open>
  C8, as stated: the counts of the list produced for a key sequence add up to the length of
  the sequence. \<open>top_n_words\<close> cuts the ranking to \<open>n\<close> entries, and the counts of the
  entries that were cut are missing from the sum.
\<close>

theorem top_n_words_sum_counterexample:
  "sum_list (map snd (top_n_words [''a'', ''b''] 1)) \<noteq> length [''a'', ''b'']"
proof -
  have "top_n_words [''a'', ''b''] 1 = [(''a'', 1)]" by code_simp
  then show ?thesis by simp
qed

text \<open>
  C8, amended: the counts of the whole ranking (\<open>most_common()\<close>, as \<open>tag_frequencies\<close>
  calls it) add up to the length of the key sequence; the counts of a ranking cut to \<open>n\<close>
  entries add up to at most that length, and to exactly that length when \<open>n\<close> is at least
  the number of distinct keys.
\<close>

theorem most_common_sum:
  "sum_list (map snd (most_common None (Counter keys))) = length keys \<and>
   sum_list (map snd (most_common (Some n) (Counter keys))) \<le> length keys \<and>
   (int (card (set keys)) \<le> n \<longrightarrow>
      sum_list (map snd (most_common (Some n) (Counter keys))) = length keys)"
proof -
  have whole: "sum_list (map snd (sorted_reverse (Counter keys))) = length keys"
    by (simp add: sum_sorted_reverse Counter_sum)
  have cut: "sum_list (map snd (nlargest n (Counter keys))) \<le> length keys"
    using sum_list_take_le [of "nat n" "map snd (sorted_reverse (Counter keys))"] whole
    by (simp add: nlargest_eq take_map)
  have "sum_list (map snd (nlargest n (Counter keys))) = length keys"
    if "int (card (set keys)) \<le> n"
  proof (cases "keys = []")
    case True
    then show ?thesis by (simp add: nlargest_eq Counter_Nil sorted_reverse_Nil)
  next
    case False
    then have "0 < card (set keys)" by (simp add: card_gt_0_iff)
    with that have "0 < n" and "length (sorted_reverse (Counter keys)) \<le> nat n"
      by (simp_all add: length_sorted_reverse Counter_length)
    with whole show ?thesis by (simp add: nlargest_eq)
  qed
  with whole cut show ?thesis by (simp add: most_common_def)
qed

theorem most_common_sum_witness:
  "int (card (set [''a'', ''b'', ''a''])) \<le> 2 \<and>
   sum_list (map snd (most_common (Some 2) (Counter [''a'', ''b'', ''a'']))) =
     length [''a'', ''b'', ''a'']"
proof -
  have c: "card (set [''a'', ''b'', ''a'']) = 2" by code_simp
  have h: "int (card (set [''a'', ''b'', ''a''])) \<le> 2" using c by simp
  with most_common_sum [of "[''a'', ''b'', ''a'']" 2] show ?thesis by blast
qed

section \<open>Claims about the tokeniser\<close>

text \<open>
  C5: for every text, \<open>tokenise\<close> returns the maximal runs of letters \<open>A\<close> to \<open>Z\<close> and
  \<open>a\<close> to \<open>z\<close> that have at least two letters, lower-cased, from left to right, without
  those that are stop-words after lower-casing. \<open>letter_runs\<close> lists the maximal runs: each
  of its entries stands in the text with no letter next to it, and together they hold every
  letter of the text, in order. So no token is shorter than two characters, every
  character of a token is one of \<open>a\<close> to \<open>z\<close>, and no token is a stop-word.
\<close>

theorem tokenise_tokens:
  "tokenise s =
     filter (\<lambda>tok. tok \<notin> STOP_WORDS)
       (map lower (filter (\<lambda>r. 2 \<le> length r) (letter_runs s))) \<and>
   (\<forall>r \<in> set (letter_runs s). \<exists>pre post. s = pre @ r @ post \<and> maximal_run pre r post) \<and>
   concat (letter_runs s) = filter is_ascii_alpha s \<and>
   (\<forall>tok \<in> set (tokenise s).
      2 \<le> length tok \<and> (\<forall>c \<in> set tok. is_lower_letter c) \<and> tok \<notin> STOP_WORDS)"
proof -
  have eq: "tokenise s =
     filter (\<lambda>tok. tok \<notin> STOP_WORDS)
       (map lower (filter (\<lambda>r. 2 \<le> length r) (letter_runs s)))"
    by (simp add: tokenise_def finditer_runs)
  have "2 \<le> length tok \<and> (\<forall>c \<in> set tok. is_lower_letter c) \<and> tok \<notin> STOP_WORDS"
    if "tok \<in> set (tokenise s)" for tok
  proof -
    from that eq obtain r where r: "r \<in> set (letter_runs s)" "2 \<le> length r"
      "tok = lower r" "tok \<notin> STOP_WORDS" by auto
    from letter_runs_maximal [OF r(1)] have "\<forall>c \<in> set r. is_ascii_alpha c"
      by (auto simp: maximal_run_def)
    from lower_letters [OF this] r show ?thesis by (simp add: lower_length)
  qed
  with eq letter_runs_maximal letter_runs_concat show ?thesis by blast
qed

theorem tokenise_tokens_witness:
  "tokenise ''The Cat sat. The cat RAN.'' = [''cat'', ''sat'', ''cat'', ''ran''] \<and>
   ''cat'' \<in> set (tokenise ''The Cat sat. The cat RAN.'') \<and>
   2 \<le> length ''cat'' \<and> ''cat'' \<notin> STOP_WORDS"
proof -
  have e: "tokenise ''The Cat sat. The cat RAN.'' = [''cat'', ''sat'', ''cat'', ''ran'']"
    by code_simp
  then have m: "''cat'' \<in> set (tokenise ''The Cat sat. The cat RAN.'')" by simp
  with tokenise_tokens [of "''The Cat sat. The cat RAN.''"]
  have "2 \<le> length ''cat'' \<and> ''cat'' \<notin> STOP_WORDS" by blast
  with e m show ?thesis by blast
qed

section \<open>Claims about the tree operations\<close>

text \<open>
  C1: for every tree, whose tags are distinct objects, and at every depth: after the loop
  of \<open>decompose\<close> no element named \<open>script\<close>, \<open>style\<close>, \<open>noscript\<close> or \<open>template\<close> is
  left in the tree; the strings left in it are the strings that were not inside such an
  element; these are what \<open>stripped_strings\<close> then collects from, and the text returned is
  joined from them alone. The removal comes first, the collection second.
\<close>

theorem visible_text_excludes_non_visible:
  assumes "distinct_idents soup"
  shows "(\<forall>tag \<in> set (find_all_True (snd (visible_text_from_soup unescape soup))).
            tag_name tag \<notin> set NON_VISIBLE) \<and>
         strings (snd (visible_text_from_soup unescape soup)) = visible_strings soup \<and>
         stripped_strings (snd (visible_text_from_soup unescape soup)) =
           collected (visible_strings soup) \<and>
         fst (visible_text_from_soup unescape soup) =
           join '' '' (map (\<lambda>element. unescape (str_of element))
             (filter (\<lambda>element. isinstance_NavigableString element \<and> \<not> isinstance_Tag element)
                (collected (visible_strings soup))))"
proof -
  let ?soup' = "snd (visible_text_from_soup unescape soup)"
  have tree: "?soup' = prune soup" by (rule visible_text_from_soup_tree [OF assms])
  have a: "\<forall>tag \<in> set (find_all_True ?soup'). tag_name tag \<notin> set NON_VISIBLE"
    unfolding tree using prune_tags [of _ soup]
    by (auto simp: find_all_True_def non_visible_def)
  have b: "strings ?soup' = visible_strings soup" by (simp only: tree strings_prune)
  have c: "stripped_strings ?soup' = collected (visible_strings soup)"
    by (simp only: stripped_strings_collected b)
  have "fst (visible_text_from_soup unescape soup) = join '' '' (gen unescape ?soup')"
    by (simp add: visible_text_from_soup_def Let_def)
  then have d: "fst (visible_text_from_soup unescape soup) =
           join '' '' (map (\<lambda>element. unescape (str_of element))
             (filter (\<lambda>element. isinstance_NavigableString element \<and> \<not> isinstance_Tag element)
                (collected (visible_strings soup))))"
    by (simp only: gen_def c)
  from a b c d show ?thesis by (intro conjI)
qed

theorem visible_text_excludes_non_visible_witness:
  "distinct_idents page \<and>
   stripped_strings page = [Py_str ''hidden'', Py_str ''The Cat sat. The cat RAN.''] \<and>
   stripped_strings (snd (visible_text_from_soup id page)) = [Py_str ''The Cat sat. The cat RAN.'']"
proof -
  have before: "stripped_strings page = [Py_str ''hidden'', Py_str ''The Cat sat. The cat RAN.'']"
    by code_simp
  from visible_text_excludes_non_visible [OF page_distinct, of id]
  have "stripped_strings (snd (visible_text_from_soup id page)) =
        [Py_str ''The Cat sat. The cat RAN.'']"
    by (simp only: page_visible_strings)
  with page_distinct before show ?thesis by (intro conjI)
qed

text \<open>
  C2, as stated: the result of \<open>tag_frequencies\<close> is independent of whether the filtering
  step of \<open>visible_text_from_soup\<close> has been applied. The filtering step removes elements
  from the tree that \<open>tag_frequencies\<close> is given: the \<open>style\<close> element of this tree is
  counted before the call of \<open>visible_text_from_soup\<close> and is not counted after it.
\<close>

theorem tag_frequencies_after_filtering_counterexample:
  "tag_frequencies
     [Tag 0 ''html'' [Tag 1 ''style'' [Str Stylesheet ''p {}''],
                      Tag 2 ''p'' [Str NavigableString ''text'']]] =
     [(''html'', 1), (''style'', 1), (''p'', 1)] \<and>
   tag_frequencies
     (snd (visible_text_from_soup id
        [Tag 0 ''html'' [Tag 1 ''style'' [Str Stylesheet ''p {}''],
                         Tag 2 ''p'' [Str NavigableString ''text'']]])) =
     [(''html'', 1), (''p'', 1)] \<and>
   tag_frequencies
     (snd (visible_text_from_soup id
        [Tag 0 ''html'' [Tag 1 ''style'' [Str Stylesheet ''p {}''],
                         Tag 2 ''p'' [Str NavigableString ''text'']]])) \<noteq>
   tag_frequencies
     [Tag 0 ''html'' [Tag 1 ''style'' [Str Stylesheet ''p {}''],
                      Tag 2 ''p'' [Str NavigableString ''text'']]]"
proof -
  have a: "tag_frequencies
     [Tag 0 ''html'' [Tag 1 ''style'' [Str Stylesheet ''p {}''],
                      Tag 2 ''p'' [Str NavigableString ''text'']]] =
     [(''html'', 1), (''style'', 1), (''p'', 1)]"
    by code_simp
  have b: "tag_frequencies
     (snd (visible_text_from_soup id
        [Tag 0 ''html'' [Tag 1 ''style'' [Str Stylesheet ''p {}''],
                         Tag 2 ''p'' [Str NavigableString ''text'']]])) =
     [(''html'', 1), (''p'', 1)]"
    by code_simp
  show ?thesis by (simp only: a b) simp
qed

text \<open>
  C2, amended: for every tree, \<open>tag_frequencies\<close> returns one entry for each distinct
  lower-cased tag name, with the number of elements of that name as its count; every
  element of the tree it is given is counted, the \<open>script\<close>, \<open>style\<close>, \<open>noscript\<close> and
  \<open>template\<close> elements among them. The key of an element is its name with every upper-case
  letter replaced by its lower-case form and every other character kept, so no key has an
  upper-case letter. In \<open>main\<close> the tree it is given is the tree as parsed: the tag counts
  of the report are those of the unfiltered tree. The result does depend on the filtering
  step: on the tree that \<open>visible_text_from_soup\<close> leaves, \<open>tag_frequencies\<close> counts the
  elements of the filtered tree, and that is the result for the tree as parsed exactly
  when the tree has no \<open>script\<close>, \<open>style\<close>, \<open>noscript\<close> or \<open>template\<close> element.
\<close>

theorem tag_frequencies_counts_all:
  "distinct (map fst (tag_frequencies soup)) \<and>
   fst ` set (tag_frequencies soup) = (\<lambda>tag. lower (tag_name tag)) ` set (find_all_True soup) \<and>
   (\<forall>(nm, c) \<in> set (tag_frequencies soup).
      c = count_list (map (\<lambda>tag. lower (tag_name tag)) (find_all_True soup)) nm) \<and>
   sum_list (map snd (tag_frequencies soup)) = sum_list (map count_tags soup) \<and>
   (\<forall>tag \<in> set (find_all_names NON_VISIBLE soup).
      lower (tag_name tag) \<in> fst ` set (tag_frequencies soup)) \<and>
   (main http_get BeautifulSoup unescape argv = Returned (u, word_counts, tag_counts) \<longrightarrow>
      (\<exists>args html. parse_args argv = Returned args \<and> http_get (url args) = Some html \<and>
         tag_counts = tag_frequencies (BeautifulSoup html) \<and>
         (\<forall>tag \<in> set (find_all_names NON_VISIBLE (BeautifulSoup html)).
            lower (tag_name tag) \<in> fst ` set tag_counts))) \<and>
   (\<forall>nm \<in> fst ` set (tag_frequencies soup). \<forall>c \<in> set nm. \<not> is_upper c) \<and>
   (\<forall>tag \<in> set (find_all_True soup).
      length (lower (tag_name tag)) = length (tag_name tag) \<and>
      (\<forall>i < length (tag_name tag).
         if is_upper (tag_name tag ! i)
         then (of_char (lower (tag_name tag) ! i) :: nat) = of_char (tag_name tag ! i) + 32
         else lower (tag_name tag) ! i = tag_name tag ! i)) \<and>
   (distinct_idents soup \<longrightarrow>
      tag_frequencies (snd (visible_text_from_soup unescape soup)) = tag_frequencies (prune soup) \<and>
      (tag_frequencies (snd (visible_text_from_soup unescape soup)) = tag_frequencies soup
         \<longleftrightarrow> find_all_names NON_VISIBLE soup = []))"
proof -
  let ?keys = "map (\<lambda>tag. lower (tag_name tag)) (find_all_True soup)"
  have tf: "tag_frequencies soup = sorted_reverse (Counter ?keys)"
    by (simp add: tag_frequencies_def most_common_def)
  have a: "distinct (map fst (tag_frequencies soup))"
    by (simp only: tf distinct_keys_sorted_reverse Counter_distinct)
  have b: "fst ` set (tag_frequencies soup) = (\<lambda>tag. lower (tag_name tag)) ` set (find_all_True soup)"
    by (rule tag_frequencies_keys)
  have c: "\<forall>(nm, c) \<in> set (tag_frequencies soup). c = count_list ?keys nm"
    using Counter_count [of _ _ ?keys] by (auto simp: tf set_sorted_reverse)
  have d: "sum_list (map snd (tag_frequencies soup)) = sum_list (map count_tags soup)"
    by (rule tag_frequencies_sum)
  have e: "\<forall>tag \<in> set (find_all_names NON_VISIBLE soup).
      lower (tag_name tag) \<in> fst ` set (tag_frequencies soup)"
    by (rule tag_frequencies_non_visible)
  have f: "main http_get BeautifulSoup unescape argv = Returned (u, word_counts, tag_counts) \<longrightarrow>
      (\<exists>args html. parse_args argv = Returned args \<and> http_get (url args) = Some html \<and>
         tag_counts = tag_frequencies (BeautifulSoup html) \<and>
         (\<forall>tag \<in> set (find_all_names NON_VISIBLE (BeautifulSoup html)).
            lower (tag_name tag) \<in> fst ` set tag_counts))"
  proof
    assume "main http_get BeautifulSoup unescape argv = Returned (u, word_counts, tag_counts)"
    from main_Returned [OF this] obtain args html where
      r: "parse_args argv = Returned args" "http_get (url args) = Some html"
        "tag_counts = tag_frequencies (BeautifulSoup html)"
      by blast
    from tag_frequencies_non_visible [of "BeautifulSoup html"] r(3)
    have "\<forall>tag \<in> set (find_all_names NON_VISIBLE (BeautifulSoup html)).
            lower (tag_name tag) \<in> fst ` set tag_counts"
      by simp
    with r show "\<exists>args html. parse_args argv = Returned args \<and> http_get (url args) = Some html \<and>
         tag_counts = tag_frequencies (BeautifulSoup html) \<and>
         (\<forall>tag \<in> set (find_all_names NON_VISIBLE (BeautifulSoup html)).
            lower (tag_name tag) \<in> fst ` set tag_counts)"
      by blast
  qed
  have g: "\<forall>nm \<in> fst ` set (tag_frequencies soup). \<forall>c \<in> set nm. \<not> is_upper c"
    unfolding b using lower_not_upper by blast
  have h: "\<forall>tag \<in> set (find_all_True soup).
      length (lower (tag_name tag)) = length (tag_name tag) \<and>
      (\<forall>i < length (tag_name tag).
         if is_upper (tag_name tag ! i)
         then (of_char (lower (tag_name tag) ! i) :: nat) = of_char (tag_name tag ! i) + 32
         else lower (tag_name tag) ! i = tag_name tag ! i)"
    using lower_nth by (simp add: lower_length)
  have i: "distinct_idents soup \<longrightarrow>
      tag_frequencies (snd (visible_text_from_soup unescape soup)) = tag_frequencies (prune soup) \<and>
      (tag_frequencies (snd (visible_text_from_soup unescape soup)) = tag_frequencies soup
         \<longleftrightarrow> find_all_names NON_VISIBLE soup = [])"
    by (simp add: visible_text_from_soup_tree tag_frequencies_prune)
  from a b c d e f g h i show ?thesis by (intro conjI)
qed

theorem tag_frequencies_counts_all_witness:
  "tag_frequencies numbers_page = [(''html'', 1), (''body'', 1), (''script'', 1), (''p'', 1)] \<and>
   Tag 2 ''script'' [Str Script ''ignored''] \<in> set (find_all_names NON_VISIBLE numbers_page) \<and>
   lower ''script'' \<in> fst ` set (tag_frequencies numbers_page) \<and>
   main example_http_get example_parser id [''http://example.com''] =
     Returned (''http://example.com'', [], tag_frequencies numbers_page) \<and>
   (\<exists>args html. parse_args [''http://example.com''] = Returned args \<and>
      example_http_get (url args) = Some html \<and>
      tag_frequencies numbers_page = tag_frequencies (example_parser html)) \<and>
   tag_frequencies mixed_case_page = [(''div'', 2), (''script'', 1)] \<and>
   is_upper (CHR ''D'') \<and> \<not> is_upper (CHR ''d'') \<and>
   (of_char (lower ''DIV'' ! 0) :: nat) = of_char (CHR ''D'') + 32 \<and>
   distinct_idents mixed_case_page \<and> find_all_names NON_VISIBLE mixed_case_page \<noteq> [] \<and>
   tag_frequencies (snd (visible_text_from_soup id mixed_case_page)) =
     tag_frequencies (prune mixed_case_page) \<and>
   tag_frequencies (snd (visible_text_from_soup id mixed_case_page)) \<noteq>
     tag_frequencies mixed_case_page"
proof -
  have t: "tag_frequencies numbers_page =
      [(''html'', 1), (''body'', 1), (''script'', 1), (''p'', 1)]"
    by code_simp
  have s: "Tag 2 ''script'' [Str Script ''ignored''] \<in>
      set (find_all_names NON_VISIBLE numbers_page)"
    by code_simp
  have "main example_http_get example_parser id [''http://example.com''] =
     Returned (''http://example.com'', [],
       [(''html'', 1), (''body'', 1), (''script'', 1), (''p'', 1)])"
    by code_simp
  then have m: "main example_http_get example_parser id [''http://example.com''] =
     Returned (''http://example.com'', [], tag_frequencies numbers_page)"
    by (simp only: t)
  note counts = tag_frequencies_counts_all [where soup = numbers_page
      and http_get = example_http_get and BeautifulSoup = example_parser and unescape = id
      and argv = "[''http://example.com'']" and u = "''http://example.com''"
      and word_counts = "[]" and tag_counts = "tag_frequencies numbers_page"]
  from counts s have "lower (tag_name (Tag 2 ''script'' [Str Script ''ignored''])) \<in>
      fst ` set (tag_frequencies numbers_page)"
    by blast
  then have k: "lower ''script'' \<in> fst ` set (tag_frequencies numbers_page)"
    by (simp only: node.sel)
  from counts m
  have ex: "\<exists>args html. parse_args [''http://example.com''] = Returned args \<and>
      example_http_get (url args) = Some html \<and>
      tag_frequencies numbers_page = tag_frequencies (example_parser html)"
    by blast
  note mixed = tag_frequencies_counts_all [where soup = mixed_case_page and unescape = id]
  have tm: "tag_frequencies mixed_case_page = [(''div'', 2), (''script'', 1)]"
    by code_simp
  have up: "is_upper (CHR ''D'')" by code_simp
  have key: "''div'' \<in> fst ` set (tag_frequencies mixed_case_page)"
    by (simp only: tm) simp
  have "CHR ''d'' \<in> set ''div''" by simp
  with mixed key have lo: "\<not> is_upper (CHR ''d'')" by blast
  have el: "Tag 0 ''DIV'' [Tag 1 ''div'' [], Tag 2 ''script'' [Str Script ''x'']] \<in>
      set (find_all_True mixed_case_page)"
    by code_simp
  have "(0::nat) < length ''DIV''" by simp
  with mixed el up
  have "(of_char (lower (tag_name (Tag 0 ''DIV'' [Tag 1 ''div'' [],
            Tag 2 ''script'' [Str Script ''x'']])) ! 0) :: nat) =
        of_char (tag_name (Tag 0 ''DIV'' [Tag 1 ''div'' [],
            Tag 2 ''script'' [Str Script ''x'']]) ! 0) + 32"
    by (metis node.sel(2) nth_Cons_0)
  then have pw: "(of_char (lower ''DIV'' ! 0) :: nat) = of_char (CHR ''D'') + 32"
    by (simp only: node.sel nth_Cons_0)
  have di: "distinct_idents mixed_case_page" by code_simp
  have nv: "find_all_names NON_VISIBLE mixed_case_page \<noteq> []" by code_simp
  from mixed di have after: "tag_frequencies (snd (visible_text_from_soup id mixed_case_page)) =
     tag_frequencies (prune mixed_case_page)"
    by blast
  from mixed di nv have ne: "tag_frequencies (snd (visible_text_from_soup id mixed_case_page)) \<noteq>
     tag_frequencies mixed_case_page"
    by blast
  from t s k m ex tm up lo pw di nv after ne show ?thesis by (intro conjI)
qed

text \<open>
  C3, as stated: the tree is unchanged after \<open>visible_text_from_soup\<close>, and
  \<open>tag_frequencies\<close> gives the same result before and after it. The script element of this
  tree is gone after the call, and \<open>tag_frequencies\<close> counts it no more.
\<close>

theorem visible_text_from_soup_changes_tree_counterexample:
  "snd (visible_text_from_soup id [Tag 0 ''div'' [Tag 1 ''script'' [Str Script ''x'']]]) \<noteq>
     [Tag 0 ''div'' [Tag 1 ''script'' [Str Script ''x'']]] \<and>
   tag_frequencies
     (snd (visible_text_from_soup id [Tag 0 ''div'' [Tag 1 ''script'' [Str Script ''x'']]])) \<noteq>
   tag_frequencies [Tag 0 ''div'' [Tag 1 ''script'' [Str Script ''x'']]]"
proof -
  have a: "snd (visible_text_from_soup id [Tag 0 ''div'' [Tag 1 ''script'' [Str Script ''x'']]]) =
        [Tag 0 ''div'' []]"
    by code_simp
  have b: "tag_frequencies [Tag 0 ''div'' []] = [(''div'', 1)]" by code_simp
  have c: "tag_frequencies [Tag 0 ''div'' [Tag 1 ''script'' [Str Script ''x'']]] =
        [(''div'', 1), (''script'', 1)]"
    by code_simp
  show ?thesis by (simp only: a b c) simp
qed

text \<open>
  C3, amended: \<open>visible_text_from_soup\<close> changes the tree it is given. After the call the
  tree is the one without its \<open>script\<close>, \<open>style\<close>, \<open>noscript\<close> and \<open>template\<close>
  elements and all that is below them, and everything else is as before; so an operation
  on the tree, \<open>tag_frequencies\<close> for one, then sees the filtered tree. The tree is
  unchanged exactly when it has no such element.
\<close>

theorem visible_text_from_soup_tree_after:
  assumes "distinct_idents soup"
  shows "snd (visible_text_from_soup unescape soup) = prune soup \<and>
         tag_frequencies (snd (visible_text_from_soup unescape soup)) =
           tag_frequencies (prune soup) \<and>
         (find_all_names NON_VISIBLE soup = [] \<longrightarrow>
            snd (visible_text_from_soup unescape soup) = soup \<and>
            tag_frequencies (snd (visible_text_from_soup unescape soup)) = tag_frequencies soup) \<and>
         (find_all_names NON_VISIBLE soup \<noteq> [] \<longrightarrow>
            snd (visible_text_from_soup unescape soup) \<noteq> soup)"
proof -
  have tree: "snd (visible_text_from_soup unescape soup) = prune soup"
    by (rule visible_text_from_soup_tree [OF assms])
  have same: "snd (visible_text_from_soup unescape soup) = soup"
    if "find_all_names NON_VISIBLE soup = []"
    using that by (simp add: visible_text_from_soup_def Let_def)
  have changed: "snd (visible_text_from_soup unescape soup) \<noteq> soup"
    if "find_all_names NON_VISIBLE soup \<noteq> []"
    unfolding tree using that by (rule prune_fixed)
  from tree same changed show ?thesis by simp
qed

theorem visible_text_from_soup_tree_after_witness:
  "distinct_idents page \<and> find_all_names NON_VISIBLE page \<noteq> [] \<and>
   snd (visible_text_from_soup id page) = prune page \<and>
   snd (visible_text_from_soup id page) \<noteq> page \<and>
   distinct_idents (prune page) \<and> find_all_names NON_VISIBLE (prune page) = [] \<and>
   snd (visible_text_from_soup id (prune page)) = prune page"
proof -
  have d: "distinct_idents (prune page)" by code_simp
  have n: "find_all_names NON_VISIBLE page \<noteq> []" by code_simp
  have e: "find_all_names NON_VISIBLE (prune page) = []" by code_simp
  from visible_text_from_soup_tree_after [OF page_distinct, of id] n
  have 1: "snd (visible_text_from_soup id page) = prune page \<and>
           snd (visible_text_from_soup id page) \<noteq> page" by blast
  from visible_text_from_soup_tree_after [OF d, of id] e
  have 2: "snd (visible_text_from_soup id (prune page)) = prune page" by blast
  from page_distinct n 1 d e 2 show ?thesis by blast
qed

text \<open>
  C9, as stated: the text of a comment is part of the text that
  \<open>visible_text_from_soup\<close> returns. For this tree, whose only string is a comment, the
  text returned is empty.
\<close>

theorem comment_text_not_in_output_counterexample:
  "fst (visible_text_from_soup id [Tag 0 ''p'' [Str Comment ''secret'']]) = []"
  by code_simp

text \<open>
  C9, amended: the text of a comment is never part of the text returned.
  \<open>stripped_strings\<close> yields only strings of class \<open>NavigableString\<close> or \<open>CData\<close>, so no
  comment reaches the \<open>isinstance\<close> test of the generator: taking the comments out of the
  tree changes neither what is collected nor the text.
\<close>

theorem comments_not_collected:
  "stripped_strings (remove_comments soup) = stripped_strings soup \<and>
   (\<forall>e \<in> set (stripped_strings soup).
      \<exists>c s. (c, s) \<in> set (strings soup) \<and> c \<noteq> Comment \<and> e = Py_str (strip s)) \<and>
   fst (visible_text_from_soup unescape (remove_comments soup)) =
     fst (visible_text_from_soup unescape soup)"
proof -
  have "\<exists>c s. (c, s) \<in> set (strings soup) \<and> c \<noteq> Comment \<and> e = Py_str (strip s)"
    if "e \<in> set (stripped_strings soup)" for e
  proof -
    from that have "e \<in> set (collected (strings soup))"
      by (simp only: stripped_strings_collected)
    from collected_sources [OF this] obtain c s where
      "(c, s) \<in> set (strings soup)" "c = NavigableString \<or> c = CData" "e = Py_str (strip s)"
      by blast
    moreover from this(2) have "c \<noteq> Comment" by auto
    ultimately show ?thesis by blast
  qed
  then show ?thesis
    by (simp add: stripped_strings_remove_comments visible_text_from_soup_text)
qed

theorem comments_not_collected_witness:
  "stripped_strings page = [Py_str ''hidden'', Py_str ''The Cat sat. The cat RAN.''] \<and>
   (Comment, '' note '') \<in> set (strings page) \<and>
   (\<exists>c s. (c, s) \<in> set (strings page) \<and> c \<noteq> Comment \<and>
      Py_str ''The Cat sat. The cat RAN.'' = Py_str (strip s))"
proof -
  have s: "stripped_strings page = [Py_str ''hidden'', Py_str ''The Cat sat. The cat RAN.'']"
    by code_simp
  have c: "(Comment, '' note '') \<in> set (strings page)" by code_simp
  from s have "Py_str ''The Cat sat. The cat RAN.'' \<in> set (stripped_strings page)" by simp
  with comments_not_collected [of page id]
  have "\<exists>c s. (c, s) \<in> set (strings page) \<and> c \<noteq> Comment \<and>
      Py_str ''The Cat sat. The cat RAN.'' = Py_str (strip s)"
    by blast
  with s c show ?thesis by (intro conjI)
qed

section \<open>Claims about the command line\<close>

text \<open>
  C7, as stated: a negative \<open>--top\<close> is rejected before \<open>top_n_words\<close> is reached. For
  the command line \<open>http://example.com --top -5\<close> the parser returns \<open>top = -5\<close>, and
  \<open>main\<close> reaches the call of \<open>top_n_words\<close> with it.
\<close>

theorem negative_top_not_rejected_counterexample:
  "main_before_top_n_words example_http_get example_parser id [''http://example.com'', ''--top'', ''-5''] =
     Returned (\<lparr>url = ''http://example.com'', top = - 5\<rparr>,
       [(''html'', 1), (''body'', 1), (''script'', 1), (''p'', 1)], []) \<and>
   main example_http_get example_parser id [''http://example.com'', ''--top'', ''-5''] =
     Returned (''http://example.com'', top_n_words [] (- 5),
       [(''html'', 1), (''body'', 1), (''script'', 1), (''p'', 1)])"
proof -
  have a: "main_before_top_n_words example_http_get example_parser id
        [''http://example.com'', ''--top'', ''-5''] =
     Returned (\<lparr>url = ''http://example.com'', top = - 5\<rparr>,
       [(''html'', 1), (''body'', 1), (''script'', 1), (''p'', 1)], [])"
    by code_simp
  then have "main example_http_get example_parser id [''http://example.com'', ''--top'', ''-5''] =
     Returned (''http://example.com'', top_n_words [] (- 5),
       [(''html'', 1), (''body'', 1), (''script'', 1), (''p'', 1)])"
    by (simp add: main_def)
  with a show ?thesis by (intro conjI)
qed

text \<open>
  C7, amended: a negative \<open>--top\<close> is not rejected. Whatever integer \<open>parse_args\<close>
  returns as \<open>top\<close>, negative or not, \<open>main\<close> passes it to \<open>top_n_words\<close> unchanged and
  unchecked; for a negative one the list of words of the report is empty.
\<close>

theorem main_passes_top_unchecked:
  assumes "parse_args argv = Returned args" and "http_get (url args) = Some html"
  shows "main_before_top_n_words http_get BeautifulSoup unescape argv =
           Returned (args, tag_frequencies (BeautifulSoup html),
             tokenise (fst (visible_text_from_soup unescape (BeautifulSoup html)))) \<and>
         main http_get BeautifulSoup unescape argv =
           Returned (url args,
             top_n_words (tokenise (fst (visible_text_from_soup unescape (BeautifulSoup html))))
               (top args),
             tag_frequencies (BeautifulSoup html)) \<and>
         (top args < 0 \<longrightarrow>
            main http_get BeautifulSoup unescape argv =
              Returned (url args, [], tag_frequencies (BeautifulSoup html)))"
proof -
  have a: "main_before_top_n_words http_get BeautifulSoup unescape argv =
           Returned (args, tag_frequencies (BeautifulSoup html),
             tokenise (fst (visible_text_from_soup unescape (BeautifulSoup html))))"
    using assms
    by (simp add: main_before_top_n_words_def fetch_html_def Let_def split: prod.splits)
  then have b: "main http_get BeautifulSoup unescape argv =
           Returned (url args,
             top_n_words (tokenise (fst (visible_text_from_soup unescape (BeautifulSoup html))))
               (top args),
             tag_frequencies (BeautifulSoup html))"
    by (simp add: main_def)
  have "top_n_words tokens (top args) = []" if "top args < 0" for tokens
    using that by (simp add: top_n_words_eq)
  with a b show ?thesis by simp
qed

theorem main_passes_top_unchecked_witness:
  "parse_args [''http://example.com'', ''--top'', ''-5''] =
     Returned \<lparr>url = ''http://example.com'', top = - 5\<rparr> \<and>
   example_http_get (url \<lparr>url = ''http://example.com'', top = - 5\<rparr>) = Some numbers_html \<and>
   top \<lparr>url = ''http://example.com'', top = - 5\<rparr> < 0 \<and>
   main example_http_get example_parser id [''http://example.com'', ''--top'', ''-5''] =
     Returned (''http://example.com'', [], tag_frequencies (example_parser numbers_html))"
proof -
  have p: "parse_args [''http://example.com'', ''--top'', ''-5''] =
     Returned \<lparr>url = ''http://example.com'', top = - 5\<rparr>"
    by code_simp
  have h: "example_http_get (url \<lparr>url = ''http://example.com'', top = - 5\<rparr>) = Some numbers_html"
    by (simp add: example_http_get_def)
  have n: "top \<lparr>url = ''http://example.com'', top = - 5\<rparr> < 0" by simp
  from main_passes_top_unchecked [where http_get = example_http_get and BeautifulSoup = example_parser
      and unescape = id, OF p h] n
  have "main example_http_get example_parser id [''http://example.com'', ''--top'', ''-5''] =
     Returned (url \<lparr>url = ''http://example.com'', top = - 5\<rparr>, [],
       tag_frequencies (example_parser numbers_html))"
    by blast
  then have "main example_http_get example_parser id [''http://example.com'', ''--top'', ''-5''] =
     Returned (''http://example.com'', [], tag_frequencies (example_parser numbers_html))"
    by simp
  with p h n show ?thesis by (intro conjI)
qed

end
